theory Spec2Isabelle
  imports Complex_Main "HOL-Library.Log_Nat"
begin

section \<open>Shared vocabulary\<close>

text \<open>
  JavaScript numbers are modelled by exact numbers: \<open>int\<close> where the program only ever
  holds whole milliseconds or counters, \<open>rat\<close> where it multiplies by 1.3 or 0.5. The
  model is exact on the safe integers (absolute value below \<open>2^53\<close>), which contain
  every millisecond timestamp the program handles. The partitioner divides a range by a
  count; there every operation is followed by the rounding of IEEE doubles
  (\<open>roundDouble\<close> below). NaN and the infinities are left out.
\<close>

datatype error =
    HttpError nat
  | DbError string
  | DriverError string
  | InvalidTimestamp
  | OtherError string

datatype WorkerStatus = RUNNING | COMPLETED | FAILED

section \<open>Rate limiter (api/middleware/rate-limit.ts)\<close>

record RateLimitState =
  remaining :: "rat option"
  limit :: "rat option"
  resetAtMs :: "rat option"
  adaptiveDelayMs :: rat
  consecutive429s :: nat

text \<open>The closure of \<open>createRateLimiter\<close>: the state object and \<open>last429AtMs\<close>.\<close>

record RateLimiter =
  state :: RateLimitState
  last429AtMs :: int

definition ADAPTIVE_MULTIPLIER :: rat where "ADAPTIVE_MULTIPLIER = 13 / 10"
definition ADAPTIVE_DECAY :: rat where "ADAPTIVE_DECAY = 1 / 2"
definition ADAPTIVE_MIN_MS :: rat where "ADAPTIVE_MIN_MS = 1000"
definition ADAPTIVE_MAX_MS :: rat where "ADAPTIVE_MAX_MS = 8000"
definition LAST_429_DEDUP_WINDOW_MS :: int where "LAST_429_DEDUP_WINDOW_MS = 2000"

definition createRateLimiter :: RateLimiter where
  "createRateLimiter =
     \<lparr>state = \<lparr>remaining = None, limit = None, resetAtMs = None,
                adaptiveDelayMs = 0, consecutive429s = 0\<rparr>,
      last429AtMs = 0\<rparr>"

text \<open>\<open>now\<close> is the value of \<open>Date.now()\<close> at the call.\<close>

definition getPreRequestDelayMs :: "int \<Rightarrow> RateLimiter \<Rightarrow> rat" where
  "getPreRequestDelayMs now rl =
     (case (remaining (state rl), resetAtMs (state rl)) of
        (Some r, Some reset) \<Rightarrow>
          if r \<le> 1 then
            (let waitMs = reset - of_int now
             in if waitMs > 0 then waitMs + 100 else adaptiveDelayMs (state rl))
          else adaptiveDelayMs (state rl)
      | _ \<Rightarrow> adaptiveDelayMs (state rl))"

definition record429 :: "int \<Rightarrow> RateLimiter \<Rightarrow> RateLimiter" where
  "record429 now rl =
     (if now - last429AtMs rl < LAST_429_DEDUP_WINDOW_MS then rl
      else
        (let st = state rl;
             st1 = st\<lparr>consecutive429s := consecutive429s st + 1\<rparr>;
             st2 = (if adaptiveDelayMs st1 = 0
                    then st1\<lparr>adaptiveDelayMs := ADAPTIVE_MIN_MS\<rparr>
                    else st1\<lparr>adaptiveDelayMs :=
                           min (adaptiveDelayMs st1 * ADAPTIVE_MULTIPLIER) ADAPTIVE_MAX_MS\<rparr>)
         in rl\<lparr>state := st2, last429AtMs := now\<rparr>))"

definition recordSuccess :: "RateLimiter \<Rightarrow> RateLimiter" where
  "recordSuccess rl =
     (let st = state rl in
      if consecutive429s st > 0 then
        (let st1 = st\<lparr>consecutive429s := 0\<rparr>;
             st2 = st1\<lparr>adaptiveDelayMs := max (adaptiveDelayMs st1 * ADAPTIVE_DECAY) 0\<rparr>;
             st3 = (if adaptiveDelayMs st2 < 100 then st2\<lparr>adaptiveDelayMs := 0\<rparr> else st2)
         in rl\<lparr>state := st3\<rparr>)
      else rl)"

section \<open>Decimal numerals of JavaScript\<close>

text \<open>
  \<open>String(n)\<close> and \<open>JSON.stringify(n)\<close> of a whole number are its decimal digits, with a
  leading minus sign for a negative one; \<open>Number(s)\<close> of a digit-only string is the
  number the digits denote.
\<close>

definition digitChar :: "nat \<Rightarrow> char" where
  "digitChar d = char_of (48 + d)"

definition isDigit :: "char \<Rightarrow> bool" where
  "isDigit c = (48 \<le> (of_char c :: nat) \<and> (of_char c :: nat) \<le> 57)"

definition digitVal :: "char \<Rightarrow> nat" where
  "digitVal c = of_char c - 48"

fun showNat :: "nat \<Rightarrow> string" where
  "showNat n = (if n < 10 then [digitChar n] else showNat (n div 10) @ [digitChar (n mod 10)])"

declare showNat.simps [simp del]

definition showInt :: "int \<Rightarrow> string" where
  "showInt i = (if i < 0 then CHR ''-'' # showNat (nat (- i)) else showNat (nat i))"

definition digitsToNat :: "string \<Rightarrow> nat" where
  "digitsToNat ds = foldl (\<lambda>v c. v * 10 + digitVal c) 0 ds"

text \<open>The regular expression \<open>/^\d+$/\<close>.\<close>

definition digitOnly :: "string \<Rightarrow> bool" where
  "digitOnly s = (s \<noteq> [] \<and> list_all isDigit s)"

section \<open>Timestamps and event mapping (mappers.ts)\<close>

text \<open>
  A value of type \<open>unknown\<close>, as far as \<open>normalizeTimestampMs\<close> and \<open>toIngestionEvent\<close>
  look at it: a finite number, a string, or anything else (null, undefined, NaN, an
  infinity, a boolean, an object).
\<close>

datatype jsvalue = JSNumber rat | JSString string | JSOther

text \<open>
  \<open>Date.parse\<close> is a built-in of the runtime; it is a parameter of the model
  (\<open>None\<close> is NaN). A digit-only string always denotes a finite number here; the
  strings of more than 308 digits, which \<open>Number\<close> reads as Infinity, are left out.
\<close>

definition normalizeTimestampMs :: "(string \<Rightarrow> int option) \<Rightarrow> jsvalue \<Rightarrow> error + int" where
  "normalizeTimestampMs dateParse v =
     (case v of
        JSNumber x \<Rightarrow>
          (let n = \<lfloor>x\<rfloor> in Inr (if n < 1000000000000 then n * 1000 else n))
      | JSString s \<Rightarrow>
          if s \<noteq> [] then
            (if digitOnly s then
               (let n = digitsToNat s
                in Inr (if n < 1000000000000 then \<lfloor>(of_nat n :: rat) * 1000\<rfloor>
                        else \<lfloor>(of_nat n :: rat)\<rfloor>))
             else (case dateParse s of
                     Some parsed \<Rightarrow> Inr parsed
                   | None \<Rightarrow> Inl InvalidTimestamp))
          else Inl InvalidTimestamp
      | JSOther \<Rightarrow> Inl InvalidTimestamp)"

text \<open>
  A raw event: its \<open>id\<close> and \<open>timestamp\<close> members and the text \<open>JSON.stringify\<close>
  gives for the whole object.
\<close>

record RawEvent =
  rawId :: jsvalue
  rawTimestamp :: jsvalue
  rawJson :: string

record IngestionEvent =
  eventId :: string
  timestampMs :: int
  payload :: string

definition toIngestionEvent :: "(string \<Rightarrow> int option) \<Rightarrow> RawEvent \<Rightarrow> IngestionEvent option" where
  "toIngestionEvent dateParse raw =
     (case rawId raw of
        JSString i \<Rightarrow>
          if i = [] then None
          else (case normalizeTimestampMs dateParse (rawTimestamp raw) of
                  Inl _ \<Rightarrow> None
                | Inr ts \<Rightarrow> Some \<lparr>eventId = i, timestampMs = ts, payload = rawJson raw\<rparr>)
      | _ \<Rightarrow> None)"

fun toIngestionEvents :: "(string \<Rightarrow> int option) \<Rightarrow> RawEvent list \<Rightarrow> IngestionEvent list" where
  "toIngestionEvents dateParse [] = []"
| "toIngestionEvents dateParse (raw # rest) =
     (case toIngestionEvent dateParse raw of
        None \<Rightarrow> toIngestionEvents dateParse rest
      | Some event \<Rightarrow> event # toIngestionEvents dateParse rest)"

section \<open>IEEE doubles\<close>

text \<open>
  A finite double is modelled by the rational number it denotes, and the result of an
  arithmetic operation by the rounding of the exact result: IEEE 754 binary64, to the
  nearest number with a significand of 53 bits, a tie going to the even significand.
  The exponent is not bounded: overflow to infinity and the subnormal numbers, below
  \<open>2^-1022\<close>, are not modelled.
\<close>

text \<open>Rounding to the nearest whole number, a tie to the even one.\<close>

definition roundEven :: "rat \<Rightarrow> int" where
  "roundEven x =
     (let n = \<lfloor>x\<rfloor>; r = x - of_int n
      in if r < 1 / 2 then n
         else if 1 / 2 < r then n + 1
         else if even n then n else n + 1)"

text \<open>
  For \<open>x > 0\<close>, \<open>binade x\<close> is the exponent \<open>e\<close> with \<open>2^e \<le> x < 2^(e+1)\<close>, read from the
  bit length of \<open>\<lfloor>x\<rfloor>\<close> or of \<open>\<lceil>1 / x\<rceil> - 1\<close>, and \<open>ulp x\<close> is the distance between
  neighbouring doubles there.
\<close>

definition binade :: "rat \<Rightarrow> int" where
  "binade x = (if 1 \<le> x then bitlen \<lfloor>x\<rfloor> - 1 else - bitlen (\<lceil>1 / x\<rceil> - 1))"

definition ulp :: "rat \<Rightarrow> rat" where
  "ulp x = 2 powi (binade x - 52)"

definition roundPos :: "rat \<Rightarrow> rat" where
  "roundPos x = of_int (roundEven (x / ulp x)) * ulp x"

definition roundDouble :: "rat \<Rightarrow> rat" where
  "roundDouble x = (if x = 0 then 0 else if 0 < x then roundPos x else - roundPos (- x))"

section \<open>Partitioner (core/cursor-forge.ts)\<close>

record TimestampChunk =
  startTs :: int
  endTs :: int

text \<open>
  The loop \<open>for (let i = 0; i < count; i++)\<close> pushes one chunk for each \<open>i\<close>. The
  arguments \<open>startTs\<close> and \<open>endTs\<close> are doubles that hold whole numbers. Each of the
  operations \<open>-\<close>, \<open>/\<close>, \<open>*\<close> and \<open>+\<close> of the source rounds its result; the counter
  \<open>i\<close> and \<open>i + 1\<close> are whole numbers, exact up to \<open>2^53\<close>. \<open>Math.floor\<close> gives a whole
  number, and so does \<open>endTs + 1\<close> (\<open>roundDouble_whole\<close> below), which the floor reads
  as an \<open>int\<close>.
\<close>

definition chunkAt :: "rat \<Rightarrow> rat \<Rightarrow> nat \<Rightarrow> rat \<Rightarrow> nat \<Rightarrow> TimestampChunk" where
  "chunkAt rangeStart rangeEnd count width i =
     (let chunkStart = \<lfloor>roundDouble (rangeStart + roundDouble (width * of_nat i))\<rfloor>;
          chunkEnd = (if i = count - 1 then \<lfloor>roundDouble (rangeEnd + 1)\<rfloor>
                      else \<lfloor>roundDouble (rangeStart + roundDouble (width * of_nat (i + 1)))\<rfloor>)
      in \<lparr>startTs = chunkStart, endTs = chunkEnd\<rparr>)"

definition createTimestampChunks :: "int \<Rightarrow> int \<Rightarrow> nat \<Rightarrow> TimestampChunk list" where
  "createTimestampChunks rangeStart rangeEnd count =
     (let width = roundDouble (roundDouble (of_int rangeEnd - of_int rangeStart) / of_nat count)
      in map (chunkAt (of_int rangeStart) (of_int rangeEnd) count width) [0..<count])"

text \<open>
  The value of \<open>width\<close> and the lower bound of chunk \<open>i\<close>,
  \<open>Math.floor(startTs + width * i)\<close>, as functions of the range; used to state the
  properties of the partition.
\<close>

definition chunkWidth :: "int \<Rightarrow> int \<Rightarrow> nat \<Rightarrow> rat" where
  "chunkWidth a b N = roundDouble (roundDouble (of_int b - of_int a) / of_nat N)"

definition chunkBoundary :: "int \<Rightarrow> int \<Rightarrow> nat \<Rightarrow> nat \<Rightarrow> int" where
  "chunkBoundary a b N i =
     \<lfloor>roundDouble (of_int a + roundDouble (chunkWidth a b N * of_nat i))\<rfloor>"

section \<open>Cursor codec (core/cursor-forge.ts)\<close>

subsection \<open>Base64 of the runtime\<close>

text \<open>
  Strings are lists of bytes (\<open>char\<close>), so \<open>Buffer.from(str, 'utf-8')\<close> and
  \<open>toString('utf-8')\<close> are the passage between \<open>char\<close> and its code.
\<close>

definition b64alphabet :: string where
  "b64alphabet = ''ABCDEFGHIJKLMNOPQRSTUVWXYZabcdefghijklmnopqrstuvwxyz0123456789+/''"

definition b64char :: "nat \<Rightarrow> char" where
  "b64char n = b64alphabet ! n"

fun base64Encode :: "nat list \<Rightarrow> string" where
  "base64Encode (a # b # c # rest) =
     b64char (a div 4) # b64char ((a mod 4) * 16 + b div 16)
       # b64char ((b mod 16) * 4 + c div 64) # b64char (c mod 64) # base64Encode rest"
| "base64Encode [a, b] =
     [b64char (a div 4), b64char ((a mod 4) * 16 + b div 16), b64char ((b mod 16) * 4), CHR ''='']"
| "base64Encode [a] = [b64char (a div 4), b64char ((a mod 4) * 16), CHR ''='', CHR ''='']"
| "base64Encode [] = []"

text \<open>
  The decoder of \<open>Buffer.from(s, 'base64')\<close> accepts the standard and the URL-safe
  alphabet, skips any other character, stops at the first \<open>=\<close>, and does not ask for
  padding.
\<close>

definition b64value :: "char \<Rightarrow> nat option" where
  "b64value c =
     (let n = (of_char c :: nat) in
      if 65 \<le> n \<and> n \<le> 90 then Some (n - 65)
      else if 97 \<le> n \<and> n \<le> 122 then Some (n - 71)
      else if 48 \<le> n \<and> n \<le> 57 then Some (n + 4)
      else if c = CHR ''+'' \<or> c = CHR ''-'' then Some 62
      else if c = CHR ''/'' \<or> c = CHR ''_'' then Some 63
      else None)"

fun sextets :: "string \<Rightarrow> nat list" where
  "sextets [] = []"
| "sextets (c # cs) =
     (if c = CHR ''='' then []
      else (case b64value c of None \<Rightarrow> sextets cs | Some v \<Rightarrow> v # sextets cs))"

fun decodeGroups :: "nat list \<Rightarrow> nat list" where
  "decodeGroups (w # x # y # z # rest) =
     (w * 4 + x div 16) # ((x mod 16) * 16 + y div 4) # ((y mod 4) * 64 + z) # decodeGroups rest"
| "decodeGroups [w, x, y] = [w * 4 + x div 16, (x mod 16) * 16 + y div 4]"
| "decodeGroups [w, x] = [w * 4 + x div 16]"
| "decodeGroups _ = []"

definition base64Decode :: "string \<Rightarrow> nat list" where
  "base64Decode s = decodeGroups (sextets s)"

definition replaceChar :: "char \<Rightarrow> char \<Rightarrow> string \<Rightarrow> string" where
  "replaceChar old new s = map (\<lambda>c. if c = old then new else c) s"

text \<open>\<open>.replace(/=+$/, '')\<close>\<close>

definition stripPadding :: "string \<Rightarrow> string" where
  "stripPadding s = rev (dropWhile (\<lambda>c. c = CHR ''='') (rev s))"

definition toBase64Url :: "string \<Rightarrow> string" where
  "toBase64Url str =
     stripPadding (replaceChar (CHR ''/'') (CHR ''_'')
       (replaceChar (CHR ''+'') (CHR ''-'') (base64Encode (map of_char str))))"

definition fromBase64Url :: "string \<Rightarrow> string" where
  "fromBase64Url b64 =
     (let padded = replaceChar (CHR ''_'') (CHR ''/'') (replaceChar (CHR ''-'') (CHR ''+'') b64)
      in map char_of (base64Decode padded))"

text \<open>
  Two functions used to state the properties of the codec: the sextets that
  \<open>base64Encode\<close> writes, before they become characters and padding, and the
  character of a sextet after the two replacements of \<open>toBase64Url\<close>.
\<close>

fun encodeSextets :: "nat list \<Rightarrow> nat list" where
  "encodeSextets (a # b # c # rest) =
     (a div 4) # ((a mod 4) * 16 + b div 16) # ((b mod 16) * 4 + c div 64) # (c mod 64)
       # encodeSextets rest"
| "encodeSextets [a, b] = [a div 4, (a mod 4) * 16 + b div 16, (b mod 16) * 4]"
| "encodeSextets [a] = [a div 4, (a mod 4) * 16]"
| "encodeSextets [] = []"

definition urlChar :: "nat \<Rightarrow> char" where
  "urlChar n = (let c = b64char n in
     if c = CHR ''+'' then CHR ''-'' else if c = CHR ''/'' then CHR ''_'' else c)"

subsection \<open>The JSON of a cursor\<close>

text \<open>
  \<open>JSON.stringify\<close> and \<open>JSON.parse\<close> on the fragment a cursor lives in: a scalar, or a
  flat object whose members are scalars; numbers are whole, strings hold no quote,
  backslash or control character. On a text outside the fragment (nested values,
  fractions, exponents, escapes) \<open>JSON_parse\<close> gives \<open>None\<close> where the runtime may
  parse it.
\<close>

datatype jscalar = JNull | JBool bool | JNum int | JStr string

datatype json = JScalar jscalar | JObject "(string \<times> jscalar) list"

definition quoteJson :: "string \<Rightarrow> string" where
  "quoteJson s = CHR 0x22 # s @ [CHR 0x22]"

fun stringifyScalar :: "jscalar \<Rightarrow> string" where
  "stringifyScalar JNull = ''null''"
| "stringifyScalar (JBool b) = (if b then ''true'' else ''false'')"
| "stringifyScalar (JNum n) = showInt n"
| "stringifyScalar (JStr s) = quoteJson s"

fun stringifyMembers :: "(string \<times> jscalar) list \<Rightarrow> string" where
  "stringifyMembers [] = []"
| "stringifyMembers [(k, v)] = quoteJson k @ '':'' @ stringifyScalar v"
| "stringifyMembers ((k, v) # rest) =
     quoteJson k @ '':'' @ stringifyScalar v @ '','' @ stringifyMembers rest"

fun JSON_stringify :: "json \<Rightarrow> string" where
  "JSON_stringify (JScalar v) = stringifyScalar v"
| "JSON_stringify (JObject ms) = ''{'' @ stringifyMembers ms @ ''}''"

datatype token = TLBrace | TRBrace | TColon | TComma | TString string | TNumber int | TWord string

datatype lexmode = Idle | InString string | InNumber bool string | InWord string

definition isSpace :: "char \<Rightarrow> bool" where
  "isSpace c = (c = CHR '' '' \<or> c = CHR 0x09 \<or> c = CHR 0x0A \<or> c = CHR 0x0D)"

definition isLower :: "char \<Rightarrow> bool" where
  "isLower c = (97 \<le> (of_char c :: nat) \<and> (of_char c :: nat) \<le> 122)"

text \<open>A number token: digits, no leading zero unless it is the only digit.\<close>

definition numberToken :: "bool \<Rightarrow> string \<Rightarrow> token option" where
  "numberToken neg ds =
     (if ds = [] \<or> (hd ds = CHR ''0'' \<and> tl ds \<noteq> []) then None
      else Some (TNumber (if neg then - int (digitsToNat ds) else int (digitsToNat ds))))"

text \<open>
  The lexer is a state machine over the characters. A number or a word ends at
  punctuation or white space; any other character there is a syntax error.
\<close>

definition punct :: "char \<Rightarrow> token option" where
  "punct c =
     (if c = CHR ''{'' then Some TLBrace
      else if c = CHR ''}'' then Some TRBrace
      else if c = CHR '':'' then Some TColon
      else if c = CHR '','' then Some TComma
      else None)"

fun lex :: "lexmode \<Rightarrow> token list \<Rightarrow> string \<Rightarrow> token list option" where
  "lex Idle acc [] = Some (rev acc)"
| "lex (InString s) acc [] = None"
| "lex (InNumber neg ds) acc [] =
     (case numberToken neg ds of None \<Rightarrow> None | Some t \<Rightarrow> Some (rev (t # acc)))"
| "lex (InWord w) acc [] = Some (rev (TWord w # acc))"
| "lex Idle acc (c # cs) =
     (case punct c of
        Some p \<Rightarrow> lex Idle (p # acc) cs
      | None \<Rightarrow>
          if isSpace c then lex Idle acc cs
          else if c = CHR 0x22 then lex (InString []) acc cs
          else if c = CHR ''-'' then lex (InNumber True []) acc cs
          else if isDigit c then lex (InNumber False [c]) acc cs
          else if isLower c then lex (InWord [c]) acc cs
          else None)"
| "lex (InString s) acc (c # cs) =
     (if c = CHR 0x22 then lex Idle (TString s # acc) cs
      else if c = CHR 0x5C \<or> (of_char c :: nat) < 32 then None
      else lex (InString (s @ [c])) acc cs)"
| "lex (InNumber neg ds) acc (c # cs) =
     (if isDigit c then lex (InNumber neg (ds @ [c])) acc cs
      else (case numberToken neg ds of
              None \<Rightarrow> None
            | Some t \<Rightarrow>
                (case punct c of
                   Some p \<Rightarrow> lex Idle (p # t # acc) cs
                 | None \<Rightarrow> if isSpace c then lex Idle (t # acc) cs else None)))"
| "lex (InWord w) acc (c # cs) =
     (if isLower c then lex (InWord (w @ [c])) acc cs
      else (case punct c of
              Some p \<Rightarrow> lex Idle (p # TWord w # acc) cs
            | None \<Rightarrow> if isSpace c then lex Idle (TWord w # acc) cs else None))"

fun scalarOf :: "token \<Rightarrow> jscalar option" where
  "scalarOf (TString s) = Some (JStr s)"
| "scalarOf (TNumber n) = Some (JNum n)"
| "scalarOf (TWord w) =
     (if w = ''true'' then Some (JBool True)
      else if w = ''false'' then Some (JBool False)
      else if w = ''null'' then Some JNull
      else None)"
| "scalarOf _ = None"

fun parseMembers :: "token list \<Rightarrow> (string \<times> jscalar) list option" where
  "parseMembers (TString k # TColon # v # sep # rest) =
     (case scalarOf v of
        None \<Rightarrow> None
      | Some x \<Rightarrow>
          if sep = TRBrace \<and> rest = [] then Some [(k, x)]
          else if sep = TComma then map_option ((#) (k, x)) (parseMembers rest)
          else None)"
| "parseMembers _ = None"

fun parseTokens :: "token list \<Rightarrow> json option" where
  "parseTokens [TLBrace, TRBrace] = Some (JObject [])"
| "parseTokens (TLBrace # ms) = map_option JObject (parseMembers ms)"
| "parseTokens [t] = map_option JScalar (scalarOf t)"
| "parseTokens _ = None"

definition JSON_parse :: "string \<Rightarrow> json option" where
  "JSON_parse text = (case lex Idle [] text of None \<Rightarrow> None | Some toks \<Rightarrow> parseTokens toks)"

subsection \<open>Forging and decoding\<close>

definition NULL_UUID :: string where
  "NULL_UUID = ''00000000-0000-0000-0000-000000000000''"

definition FAR_FUTURE_EXP :: int where
  "FAR_FUTURE_EXP = 4102444800000"

definition forgeCursor :: "int \<Rightarrow> string" where
  "forgeCursor tsMs =
     (let payload = JSON_stringify (JObject
            [(''id'', JStr NULL_UUID), (''ts'', JNum tsMs),
             (''v'', JNum 2), (''exp'', JNum FAR_FUTURE_EXP)])
      in toBase64Url payload)"

text \<open>
  A later member of the same name wins in \<open>JSON.parse\<close>, hence the lookup from the
  end. Every failure of the \<open>try\<close> block, and a \<open>ts\<close> that is not a number, is \<open>None\<close>.
\<close>

definition decodeCursorTimestamp :: "string \<Rightarrow> int option" where
  "decodeCursorTimestamp cursor =
     (case JSON_parse (fromBase64Url cursor) of
        Some (JObject ms) \<Rightarrow>
          (case map_of (rev ms) ''ts'' of
             Some (JNum ts) \<Rightarrow> Some ts
           | _ \<Rightarrow> None)
      | _ \<Rightarrow> None)"

section \<open>Relational store (db/events-repo.ts, db/worker-state-repo.ts)\<close>

text \<open>
  The two tables, keyed by their primary keys; \<open>ingested_at\<close> and \<open>updated_at\<close> are
  left out. A pooled connection holds the committed database and, while a transaction
  is open, the transaction's working copy; other sessions see \<open>committed\<close> only.
\<close>

record EventRow =
  timestamp_ms :: int
  payload_json :: string

record CheckpointRow =
  chunk_start_ts :: int
  chunk_end_ts :: int
  cursor_col :: "string option"
  last_ts :: "int option"
  fetched_count :: nat
  inserted_count :: nat
  status_col :: WorkerStatus

record Database =
  ingested_events :: "string \<rightharpoonup> EventRow"
  worker_checkpoints :: "nat \<rightharpoonup> CheckpointRow"

record PoolClient =
  committed :: Database
  pending :: "Database option"

text \<open>The parameter of \<open>upsertWorkerCheckpoint\<close>, and a task of the write queue.\<close>

record CheckpointUpdate =
  cpWorkerId :: nat
  cpCursor :: "string option"
  cpLastTs :: "int option"
  cpFetchedCount :: nat
  cpInsertedCount :: nat
  cpStatus :: WorkerStatus

record WriteTask =
  taskEvents :: "IngestionEvent list"
  taskCheckpoint :: CheckpointUpdate

text \<open>
  \<open>INSERT INTO ingested_events ... ON CONFLICT (event_id) DO NOTHING\<close>: the rows in
  order, a row whose key is present is skipped; the result is the row count.
\<close>

fun sqlInsertEvents :: "IngestionEvent list \<Rightarrow> Database \<Rightarrow> nat \<times> Database" where
  "sqlInsertEvents [] db = (0, db)"
| "sqlInsertEvents (e # es) db =
     (if ingested_events db (eventId e) \<noteq> None then sqlInsertEvents es db
      else
        (let db1 = db\<lparr>ingested_events := (ingested_events db)
                     (eventId e \<mapsto> \<lparr>timestamp_ms = timestampMs e, payload_json = payload e\<rparr>)\<rparr>;
             (n, db2) = sqlInsertEvents es db1
         in (Suc n, db2)))"

text \<open>\<open>UPDATE worker_checkpoints SET ... WHERE worker_id = $1\<close>\<close>

definition sqlUpdateCheckpoint :: "CheckpointUpdate \<Rightarrow> Database \<Rightarrow> Database" where
  "sqlUpdateCheckpoint cp db =
     (case worker_checkpoints db (cpWorkerId cp) of
        None \<Rightarrow> db
      | Some row \<Rightarrow>
          db\<lparr>worker_checkpoints := (worker_checkpoints db)
               (cpWorkerId cp \<mapsto> row\<lparr>cursor_col := cpCursor cp, last_ts := cpLastTs cp,
                                      fetched_count := cpFetchedCount cp,
                                      inserted_count := cpInsertedCount cp,
                                      status_col := cpStatus cp\<rparr>)\<rparr>)"

text \<open>
  \<open>INSERT INTO worker_checkpoints (worker_id, chunk_start_ts, chunk_end_ts) ...
  ON CONFLICT (worker_id) DO NOTHING\<close>; the other columns take their defaults.
\<close>

fun sqlInsertCheckpoints :: "(nat \<times> TimestampChunk) list \<Rightarrow> Database \<Rightarrow> Database" where
  "sqlInsertCheckpoints [] db = db"
| "sqlInsertCheckpoints ((i, ch) # rest) db =
     (if worker_checkpoints db i \<noteq> None then sqlInsertCheckpoints rest db
      else sqlInsertCheckpoints rest
             (db\<lparr>worker_checkpoints := (worker_checkpoints db)
                  (i \<mapsto> \<lparr>chunk_start_ts = startTs ch, chunk_end_ts = endTs ch,
                         cursor_col = None, last_ts = None, fetched_count = 0,
                         inserted_count = 0, status_col = RUNNING\<rparr>)\<rparr>))"

text \<open>A statement runs on the open transaction's copy, or in autocommit.\<close>

definition runStatement :: "(Database \<Rightarrow> 'a \<times> Database) \<Rightarrow> PoolClient \<Rightarrow> 'a \<times> PoolClient" where
  "runStatement stmt client =
     (case pending client of
        Some work \<Rightarrow> (let (r, work1) = stmt work in (r, client\<lparr>pending := Some work1\<rparr>))
      | None \<Rightarrow> (let (r, db1) = stmt (committed client) in (r, client\<lparr>committed := db1\<rparr>)))"

text \<open>The database that a statement of this connection reads and writes.\<close>

definition currentDb :: "PoolClient \<Rightarrow> Database" where
  "currentDb client = (case pending client of Some work \<Rightarrow> work | None \<Rightarrow> committed client)"

definition sqlBegin :: "PoolClient \<Rightarrow> PoolClient" where
  "sqlBegin client =
     (case pending client of
        None \<Rightarrow> client\<lparr>pending := Some (committed client)\<rparr>
      | Some _ \<Rightarrow> client)"

definition sqlCommit :: "PoolClient \<Rightarrow> PoolClient" where
  "sqlCommit client =
     (case pending client of
        None \<Rightarrow> client
      | Some work \<Rightarrow> client\<lparr>committed := work, pending := None\<rparr>)"

definition sqlRollback :: "PoolClient \<Rightarrow> PoolClient" where
  "sqlRollback client = client\<lparr>pending := None\<rparr>"

text \<open>
  \<open>queryFails\<close> says that the driver rejects the query (lost connection, deadlock,
  a payload that is not JSON); a rejected statement changes nothing.
\<close>

definition insertEvents ::
  "bool \<Rightarrow> PoolClient \<Rightarrow> IngestionEvent list \<Rightarrow> (error + nat) \<times> PoolClient" where
  "insertEvents queryFails client evs =
     (if evs = [] then (Inr 0, client)
      else if queryFails then (Inl (DbError ''insertEvents''), client)
      else (let (rowCount, client1) = runStatement (sqlInsertEvents evs) client
            in (Inr rowCount, client1)))"

definition upsertWorkerCheckpoint ::
  "bool \<Rightarrow> PoolClient \<Rightarrow> CheckpointUpdate \<Rightarrow> (error + unit) \<times> PoolClient" where
  "upsertWorkerCheckpoint queryFails client cp =
     (if queryFails then (Inl (DbError ''upsertWorkerCheckpoint''), client)
      else (let (u, client1) = runStatement (\<lambda>db. ((), sqlUpdateCheckpoint cp db)) client
            in (Inr (), client1)))"

text \<open>\<open>pool.query\<close> runs in autocommit on the committed database.\<close>

definition initializeWorkerCheckpoints ::
  "bool \<Rightarrow> Database \<Rightarrow> TimestampChunk list \<Rightarrow> (error + unit) \<times> Database" where
  "initializeWorkerCheckpoints queryFails db chunks =
     (if chunks = [] then (Inr (), db)
      else if queryFails then (Inl (DbError ''initializeWorkerCheckpoints''), db)
      else (Inr (), sqlInsertCheckpoints (zip [0..<length chunks] chunks) db))"

section \<open>Write queue (core/db-queue.ts)\<close>

text \<open>Which of the steps of one \<open>executeWrite\<close> the driver rejects.\<close>

record Faults =
  connectFails :: bool
  beginFails :: bool
  insertFails :: bool
  updateFails :: bool
  commitFails :: bool
  rollbackFails :: bool

text \<open>The \<open>try\<close> block.\<close>

definition executeWriteTry ::
  "Faults \<Rightarrow> PoolClient \<Rightarrow> WriteTask \<Rightarrow> (error + nat) \<times> PoolClient" where
  "executeWriteTry f client task =
     (if beginFails f then (Inl (DriverError ''BEGIN''), client)
      else
        (let c1 = sqlBegin client in
         case insertEvents (insertFails f) c1 (taskEvents task) of
           (Inl err, c2) \<Rightarrow> (Inl err, c2)
         | (Inr inserted, c2) \<Rightarrow>
             (case upsertWorkerCheckpoint (updateFails f) c2 (taskCheckpoint task) of
                (Inl err, c3) \<Rightarrow> (Inl err, c3)
              | (Inr u, c3) \<Rightarrow>
                  if commitFails f then (Inl (DriverError ''COMMIT''), c3)
                  else (Inr inserted, sqlCommit c3))))"

text \<open>
  \<open>pool.connect()\<close> stands before the \<open>try\<close>; the \<open>catch\<close> sends \<open>ROLLBACK\<close>, ignores
  its failure and rethrows.
\<close>

definition executeWrite ::
  "Faults \<Rightarrow> PoolClient \<Rightarrow> WriteTask \<Rightarrow> (error + nat) \<times> PoolClient" where
  "executeWrite f pool task =
     (if connectFails f then (Inl (DriverError ''connect''), pool)
      else
        (case executeWriteTry f pool task of
           (Inr inserted, client) \<Rightarrow> (Inr inserted, client)
         | (Inl err, client) \<Rightarrow>
             (Inl err, if rollbackFails f then client else sqlRollback client)))"

section \<open>Worker (core/worker.ts)\<close>

record NormalizedPage =
  events :: "RawEvent list"
  hasMore :: bool
  nextCursor :: "string option"

record WorkerCheckpoint =
  workerId :: nat
  chunkStartTs :: int
  chunkEndTs :: int
  cursor :: "string option"
  lastTs :: "int option"
  fetchedCount :: nat
  insertedCount :: nat
  status :: WorkerStatus

record WorkerResult =
  resWorkerId :: nat
  resFetchedCount :: nat
  resInsertedCount :: nat
  resStatus :: WorkerStatus

text \<open>The row mapping of \<open>loadWorkerCheckpoints\<close>.\<close>

definition checkpointOfRow :: "nat \<Rightarrow> CheckpointRow \<Rightarrow> WorkerCheckpoint" where
  "checkpointOfRow wid row =
     \<lparr>workerId = wid, chunkStartTs = chunk_start_ts row, chunkEndTs = chunk_end_ts row,
      cursor = cursor_col row, lastTs = last_ts row, fetchedCount = fetched_count row,
      insertedCount = inserted_count row, status = status_col row\<rparr>"

text \<open>
  The collaborators of the worker. \<open>fetchPage ctx k limit c\<close> is what the \<open>k\<close>-th call
  of \<open>source.fetchPage\<close> (counted from 0), asked for \<open>limit\<close> events at cursor \<open>c\<close>,
  settles to; \<open>enqueue ctx k task\<close> is what the \<open>k\<close>-th call of \<open>dbQueue.enqueue\<close>
  settles to; \<open>shouldStop ctx k\<close> is the answer of the \<open>k\<close>-th call of the stop
  predicate. The logger and the progress callback are left out.
\<close>

record WorkerContext =
  fetchPage :: "nat \<Rightarrow> nat \<Rightarrow> string \<Rightarrow> error + NormalizedPage"
  enqueue :: "nat \<Rightarrow> WriteTask \<Rightarrow> error + nat"
  batchSize :: nat
  shouldStop :: "nat \<Rightarrow> bool"
  ctxDateParse :: "string \<Rightarrow> int option"

text \<open>
  The local variables of \<open>runWorker\<close>, and a trace of its calls: the cursors of the
  fetches issued, the tasks handed to the queue, the number of calls of the stop
  predicate. A promise is modelled by the value it settles to.
\<close>

record WorkerVars =
  cursorVar :: "string option"
  lastTsVar :: "int option"
  fetchedCountVar :: nat
  insertedCountVar :: nat
  doneVar :: bool
  fetchPromise :: "(error + NormalizedPage) option"
  fetchLog :: "string list"
  enqueueLog :: "WriteTask list"
  stopCalls :: nat

definition startFetch :: "WorkerContext \<Rightarrow> string \<Rightarrow> WorkerVars \<Rightarrow> WorkerVars" where
  "startFetch ctx cur vs =
     vs\<lparr>fetchPromise := Some (fetchPage ctx (length (fetchLog vs)) (batchSize ctx) cur),
        fetchLog := fetchLog vs @ [cur]\<rparr>"

text \<open>
  The \<open>for\<close> loop over \<open>allEvents\<close>: the filtered events, and whether \<open>done\<close> was set
  (the \<open>break\<close>).
\<close>

fun filterEvents :: "int \<Rightarrow> int \<Rightarrow> IngestionEvent list \<Rightarrow> IngestionEvent list \<times> bool" where
  "filterEvents lo hi [] = ([], False)"
| "filterEvents lo hi (event # rest) =
     (if timestampMs event < lo then ([], True)
      else if timestampMs event \<ge> hi then filterEvents lo hi rest
      else (let (filtered, crossed) = filterEvents lo hi rest in (event # filtered, crossed)))"

text \<open>\<open>Math.min(...xs)\<close>; \<open>None\<close> is the Infinity of an empty argument list.\<close>

fun mathMin :: "int list \<Rightarrow> int option" where
  "mathMin [] = None"
| "mathMin (x # xs) = Some (fold min xs x)"

text \<open>A cursor is truthy when it is neither null nor the empty string.\<close>

definition truthy :: "string option \<Rightarrow> bool" where
  "truthy c = (case c of None \<Rightarrow> False | Some s \<Rightarrow> s \<noteq> [])"

text \<open>The body of the \<open>while\<close> loop after the page has arrived.\<close>

definition processPage ::
  "WorkerContext \<Rightarrow> WorkerCheckpoint \<Rightarrow> WorkerVars \<Rightarrow> NormalizedPage \<Rightarrow> error + WorkerVars" where
  "processPage ctx checkpoint vs page =
     (let rawEvents = events page;
          allEvents = toIngestionEvents (ctxDateParse ctx) rawEvents;
          (filtered, crossed) = filterEvents (chunkStartTs checkpoint) (chunkEndTs checkpoint) allEvents;
          vs1 = vs\<lparr>doneVar := doneVar vs \<or> crossed,
                    fetchedCountVar := fetchedCountVar vs + length rawEvents,
                    cursorVar := nextCursor page\<rparr>;
          vs2 = (if allEvents \<noteq> []
                 then vs1\<lparr>lastTsVar := mathMin (map timestampMs allEvents)\<rparr> else vs1);
          vs3 = (if hasMore page \<and> \<not> doneVar vs2 \<and> truthy (cursorVar vs2)
                 then startFetch ctx (the (cursorVar vs2)) vs2
                 else vs2\<lparr>fetchPromise := None\<rparr>);
          task = \<lparr>taskEvents = filtered,
                  taskCheckpoint = \<lparr>cpWorkerId = workerId checkpoint, cpCursor = cursorVar vs3,
                                    cpLastTs = lastTsVar vs3, cpFetchedCount = fetchedCountVar vs3,
                                    cpInsertedCount = insertedCountVar vs3, cpStatus = RUNNING\<rparr>\<rparr>;
          written = (if filtered \<noteq> [] then
                       (case enqueue ctx (length (enqueueLog vs3)) task of
                          Inl err \<Rightarrow> Inl err
                        | Inr inserted \<Rightarrow>
                            Inr (vs3\<lparr>enqueueLog := enqueueLog vs3 @ [task],
                                     insertedCountVar := insertedCountVar vs3 + inserted\<rparr>))
                     else Inr vs3)
      in case written of
           Inl err \<Rightarrow> Inl err
         | Inr vs4 \<Rightarrow>
             Inr (if \<not> hasMore page \<or> fetchPromise vs4 = None
                  then vs4\<lparr>doneVar := True\<rparr> else vs4))"

text \<open>
  One turn of the \<open>while\<close> loop: await the page; on \<open>HttpError\<close> 400 with a known
  \<open>lastTs\<close> forge a cursor there, fetch again and \<open>continue\<close>; any other error is
  rethrown. The loop never awaits a null promise; the model gives a type error there.
\<close>

definition workerStep ::
  "WorkerContext \<Rightarrow> WorkerCheckpoint \<Rightarrow> WorkerVars \<Rightarrow> error + WorkerVars" where
  "workerStep ctx checkpoint vs =
     (case fetchPromise vs of
        None \<Rightarrow> Inl (OtherError ''TypeError'')
      | Some (Inl err) \<Rightarrow>
          (case (err, lastTsVar vs) of
             (HttpError code, Some ts) \<Rightarrow>
               if code = 400
               then Inr (startFetch ctx (forgeCursor ts) (vs\<lparr>cursorVar := Some (forgeCursor ts)\<rparr>))
               else Inl err
           | _ \<Rightarrow> Inl err)
      | Some (Inr page) \<Rightarrow> processPage ctx checkpoint vs page)"

text \<open>
  \<open>while (!done && !shouldStop())\<close> with fuel: \<open>None\<close> says that the fuel ran out
  before the loop ended.
\<close>

fun runLoop ::
  "WorkerContext \<Rightarrow> WorkerCheckpoint \<Rightarrow> nat \<Rightarrow> WorkerVars \<Rightarrow> (error + WorkerVars) option" where
  "runLoop ctx checkpoint fuel vs =
     (if doneVar vs then Some (Inr vs)
      else
        (let vs1 = vs\<lparr>stopCalls := stopCalls vs + 1\<rparr> in
         if shouldStop ctx (stopCalls vs) then Some (Inr vs1)
         else (case fuel of
                 0 \<Rightarrow> None
               | Suc n \<Rightarrow>
                   (case workerStep ctx checkpoint vs1 of
                      Inl err \<Rightarrow> Some (Inl err)
                    | Inr vs2 \<Rightarrow> runLoop ctx checkpoint n vs2))))"

declare runLoop.simps [simp del]

text \<open>The variables when the loop is entered: the first fetch is in flight.\<close>

definition workerInit :: "WorkerContext \<Rightarrow> WorkerCheckpoint \<Rightarrow> WorkerVars" where
  "workerInit ctx checkpoint =
     (let cursor0 = (case cursor checkpoint of
                       None \<Rightarrow> forgeCursor (chunkEndTs checkpoint)
                     | Some c \<Rightarrow> c)
      in startFetch ctx cursor0
           \<lparr>cursorVar = Some cursor0, lastTsVar = lastTs checkpoint,
            fetchedCountVar = fetchedCount checkpoint,
            insertedCountVar = insertedCount checkpoint, doneVar = False,
            fetchPromise = None, fetchLog = [], enqueueLog = [], stopCalls = 0\<rparr>)"

definition runWorker ::
  "WorkerContext \<Rightarrow> WorkerCheckpoint \<Rightarrow> nat \<Rightarrow> (error + WorkerResult) option" where
  "runWorker ctx checkpoint fuel =
     (if status checkpoint = COMPLETED
      then Some (Inr \<lparr>resWorkerId = workerId checkpoint,
                      resFetchedCount = fetchedCount checkpoint,
                      resInsertedCount = insertedCount checkpoint, resStatus = COMPLETED\<rparr>)
      else
        (case runLoop ctx checkpoint fuel (workerInit ctx checkpoint) of
           None \<Rightarrow> None
         | Some (Inl err) \<Rightarrow> Some (Inl err)
         | Some (Inr vs) \<Rightarrow>
             Some (Inr \<lparr>resWorkerId = workerId checkpoint,
                        resFetchedCount = fetchedCountVar vs,
                        resInsertedCount = insertedCountVar vs,
                        resStatus = (if shouldStop ctx (stopCalls vs) then RUNNING
                                     else COMPLETED)\<rparr>)))"


section \<open>Example values\<close>

text \<open>
  A store with the checkpoint row of worker 0 for the chunk
  \<open>[1768000000000, 1769000000000)\<close>, an empty store, and a task of worker 0 with one event.
\<close>

definition exampleRow :: CheckpointRow where
  "exampleRow =
     \<lparr>chunk_start_ts = 1768000000000, chunk_end_ts = 1769000000000, cursor_col = None,
      last_ts = None, fetched_count = 0, inserted_count = 0, status_col = RUNNING\<rparr>"

definition exampleDb :: Database where
  "exampleDb = \<lparr>ingested_events = Map.empty, worker_checkpoints = [0 \<mapsto> exampleRow]\<rparr>"

definition emptyDb :: Database where
  "emptyDb = \<lparr>ingested_events = Map.empty, worker_checkpoints = Map.empty\<rparr>"

definition exampleUpdate :: CheckpointUpdate where
  "exampleUpdate =
     \<lparr>cpWorkerId = 0, cpCursor = Some ''cursor-2'', cpLastTs = Some 1768400000000,
      cpFetchedCount = 2, cpInsertedCount = 0, cpStatus = RUNNING\<rparr>"

definition exampleTask :: WriteTask where
  "exampleTask =
     \<lparr>taskEvents = [\<lparr>eventId = ''e1'', timestampMs = 1768500000000, payload = ''{}''\<rparr>],
      taskCheckpoint = exampleUpdate\<rparr>"

definition noFaults :: Faults where
  "noFaults =
     \<lparr>connectFails = False, beginFails = False, insertFails = False, updateFails = False,
      commitFails = False, rollbackFails = False\<rparr>"

text \<open>
  A worker of that chunk with the collaborators of the integration test (a source
  that returns an empty last page, a queue that inserts every event); a source whose
  first fetch fails with status 400; two pages; the variables of a worker that awaits
  a settled fetch; the task the worker enqueues for \<open>crossingPage\<close> and the row that
  this task leaves in the store.
\<close>

definition exampleCheckpoint :: WorkerCheckpoint where
  "exampleCheckpoint =
     \<lparr>workerId = 0, chunkStartTs = 1768000000000, chunkEndTs = 1769000000000, cursor = None,
      lastTs = None, fetchedCount = 0, insertedCount = 0, status = RUNNING\<rparr>"

definition rawEventAt :: "string \<Rightarrow> int \<Rightarrow> RawEvent" where
  "rawEventAt i t = \<lparr>rawId = JSString i, rawTimestamp = JSNumber (of_int t), rawJson = ''{}''\<rparr>"

definition emptyPage :: NormalizedPage where
  "emptyPage = \<lparr>events = [], hasMore = False, nextCursor = None\<rparr>"

definition exampleCtx :: WorkerContext where
  "exampleCtx =
     \<lparr>fetchPage = (\<lambda>k n c. Inr emptyPage),
      enqueue = (\<lambda>k task. Inr (length (taskEvents task))),
      batchSize = 5000, shouldStop = (\<lambda>k. False), ctxDateParse = Map.empty\<rparr>"

definition expiredCtx :: WorkerContext where
  "expiredCtx =
     exampleCtx\<lparr>fetchPage := (\<lambda>k n c. if k = 0 then Inl (HttpError 400) else Inr emptyPage)\<rparr>"

definition unsortedPage :: NormalizedPage where
  "unsortedPage =
     \<lparr>events = [rawEventAt ''below-range'' 1767000000000, rawEventAt ''in-range'' 1768500000000],
      hasMore = False, nextCursor = None\<rparr>"

definition crossingPage :: NormalizedPage where
  "crossingPage =
     \<lparr>events = [rawEventAt ''in-range'' 1768500000000, rawEventAt ''below-range'' 1767000000000],
      hasMore = True, nextCursor = Some ''cursor-2''\<rparr>"

definition awaitingVars :: "(error + NormalizedPage) \<Rightarrow> int option \<Rightarrow> WorkerVars" where
  "awaitingVars settled known =
     \<lparr>cursorVar = Some ''cursor-1'', lastTsVar = known, fetchedCountVar = 0,
      insertedCountVar = 0, doneVar = False, fetchPromise = Some settled,
      fetchLog = [''cursor-1''], enqueueLog = [], stopCalls = 1\<rparr>"

definition crossingTask :: WriteTask where
  "crossingTask =
     \<lparr>taskEvents = [\<lparr>eventId = ''in-range'', timestampMs = 1768500000000, payload = ''{}''\<rparr>],
      taskCheckpoint =
        \<lparr>cpWorkerId = 0, cpCursor = Some ''cursor-2'', cpLastTs = Some 1767000000000,
         cpFetchedCount = 2, cpInsertedCount = 0, cpStatus = RUNNING\<rparr>\<rparr>"

definition resumedRow :: CheckpointRow where
  "resumedRow =
     exampleRow\<lparr>cursor_col := Some ''cursor-2'', last_ts := Some 1767000000000,
                fetched_count := 2, inserted_count := 0, status_col := RUNNING\<rparr>"

section \<open>Properties of the rate limiter\<close>

text \<open>
  Claim C5, as stated: the pre-request delay is the maximum of the header-derived wait
  and \<open>adaptiveDelayMs\<close>. It fails: the limiter has seen \<open>remaining = 0\<close> with a reset
  100 ms ahead and holds an adaptive delay of 4000 ms; the delay is the header wait of
  200 ms, not the maximum 4000 ms.
\<close>

theorem getPreRequestDelayMs_not_max_counterexample:
  "getPreRequestDelayMs 1000
     \<lparr>state = \<lparr>remaining = Some 0, limit = Some 60, resetAtMs = Some 1100,
                adaptiveDelayMs = 4000, consecutive429s = 0\<rparr>,
      last429AtMs = 0\<rparr>
   \<noteq> max (1100 - 1000 + 100) 4000"
  by (simp add: getPreRequestDelayMs_def)

text \<open>
  Claim C5, amended: the header-derived wait takes precedence. When \<open>remaining \<le> 1\<close>
  and \<open>resetAtMs > now\<close> the delay is \<open>resetAtMs - now + 100\<close>, whatever
  \<open>adaptiveDelayMs\<close> is; in every other state the delay is \<open>adaptiveDelayMs\<close>.
\<close>

theorem getPreRequestDelayMs_header_first:
  "(remaining (state rl) = Some r \<and> r \<le> 1 \<and> resetAtMs (state rl) = Some reset
      \<and> of_int now < reset
      \<longrightarrow> getPreRequestDelayMs now rl = reset - of_int now + 100)
   \<and> (\<not> (\<exists>r reset. remaining (state rl) = Some r \<and> r \<le> 1
              \<and> resetAtMs (state rl) = Some reset \<and> of_int now < reset)
      \<longrightarrow> getPreRequestDelayMs now rl = adaptiveDelayMs (state rl))"
  by (auto simp: getPreRequestDelayMs_def Let_def split: option.splits)

theorem getPreRequestDelayMs_header_first_witness:
  "getPreRequestDelayMs 1000
     \<lparr>state = \<lparr>remaining = Some 0, limit = Some 60, resetAtMs = Some 1100,
                adaptiveDelayMs = 4000, consecutive429s = 0\<rparr>,
      last429AtMs = 0\<rparr> = 200
   \<and> getPreRequestDelayMs 1000
     \<lparr>state = \<lparr>remaining = Some 5, limit = Some 60, resetAtMs = Some 1100,
                adaptiveDelayMs = 4000, consecutive429s = 0\<rparr>,
      last429AtMs = 0\<rparr> = 4000"
  using getPreRequestDelayMs_header_first
          [of "\<lparr>state = \<lparr>remaining = Some 0, limit = Some 60, resetAtMs = Some 1100,
                          adaptiveDelayMs = 4000, consecutive429s = 0\<rparr>,
                last429AtMs = 0\<rparr>" 0 1100 1000]
        getPreRequestDelayMs_header_first
          [of "\<lparr>state = \<lparr>remaining = Some 5, limit = Some 60, resetAtMs = Some 1100,
                          adaptiveDelayMs = 4000, consecutive429s = 0\<rparr>,
                last429AtMs = 0\<rparr>" 0 1100 1000]
  by simp

text \<open>
  Claim C6, as stated: \<open>recordSuccess\<close> halves \<open>adaptiveDelayMs\<close> in every state, also
  when the count of consecutive 429s is 0. It fails: after one 429 and one success the
  delay is 500 ms and the count is 0; a second success leaves the delay at 500 ms.
\<close>

theorem recordSuccess_idle_counterexample:
  "adaptiveDelayMs (state (recordSuccess (record429 5000 createRateLimiter))) = 500
   \<and> consecutive429s (state (recordSuccess (record429 5000 createRateLimiter))) = 0
   \<and> adaptiveDelayMs (state (recordSuccess (recordSuccess (record429 5000 createRateLimiter))))
       \<noteq> 500 * (1 / 2)"
  by (simp add: recordSuccess_def record429_def createRateLimiter_def Let_def
      ADAPTIVE_DECAY_def ADAPTIVE_MIN_MS_def LAST_429_DEDUP_WINDOW_MS_def)

text \<open>
  Claim C6, amended: in a state whose count of consecutive 429s is positive (and
  \<open>adaptiveDelayMs \<ge> 0\<close>), \<open>recordSuccess\<close> sets \<open>adaptiveDelayMs\<close> to half its value,
  snapped to 0 when the half is below 100 ms, and resets the count to 0; in a state
  whose count is 0 it changes nothing.
\<close>

theorem recordSuccess_decay:
  "(0 < consecutive429s (state rl) \<and> 0 \<le> adaptiveDelayMs (state rl)
      \<longrightarrow> recordSuccess rl = rl\<lparr>state := (state rl)\<lparr>consecutive429s := 0,
             adaptiveDelayMs := (if adaptiveDelayMs (state rl) / 2 < 100 then 0
                                 else adaptiveDelayMs (state rl) / 2)\<rparr>\<rparr>)
   \<and> (consecutive429s (state rl) = 0 \<longrightarrow> recordSuccess rl = rl)"
  by (auto simp: recordSuccess_def Let_def ADAPTIVE_DECAY_def max_def)

theorem recordSuccess_decay_witness:
  "recordSuccess \<lparr>state = \<lparr>remaining = None, limit = None, resetAtMs = None,
                            adaptiveDelayMs = 1300, consecutive429s = 2\<rparr>,
                  last429AtMs = 7000\<rparr>
     = \<lparr>state = \<lparr>remaining = None, limit = None, resetAtMs = None,
                  adaptiveDelayMs = 650, consecutive429s = 0\<rparr>,
        last429AtMs = 7000\<rparr>
   \<and> recordSuccess \<lparr>state = \<lparr>remaining = None, limit = None, resetAtMs = None,
                            adaptiveDelayMs = 650, consecutive429s = 0\<rparr>,
                    last429AtMs = 7000\<rparr>
     = \<lparr>state = \<lparr>remaining = None, limit = None, resetAtMs = None,
                  adaptiveDelayMs = 650, consecutive429s = 0\<rparr>,
        last429AtMs = 7000\<rparr>"
  using recordSuccess_decay
          [of "\<lparr>state = \<lparr>remaining = None, limit = None, resetAtMs = None,
                          adaptiveDelayMs = 1300, consecutive429s = 2\<rparr>,
                last429AtMs = 7000\<rparr>"]
        recordSuccess_decay
          [of "\<lparr>state = \<lparr>remaining = None, limit = None, resetAtMs = None,
                          adaptiveDelayMs = 650, consecutive429s = 0\<rparr>,
                last429AtMs = 7000\<rparr>"]
  by simp

section \<open>Properties of the decimal numerals\<close>

lemma digitChar_isDigit: "d < 10 \<Longrightarrow> isDigit (digitChar d)"
  by (simp add: isDigit_def digitChar_def)

lemma digitVal_digitChar: "d < 10 \<Longrightarrow> digitVal (digitChar d) = d"
  by (simp add: digitVal_def digitChar_def)

lemma showNat_nonempty: "showNat n \<noteq> []"
  by (subst showNat.simps) simp

lemma showNat_digits: "list_all isDigit (showNat n)"
proof (induction n rule: showNat.induct)
  case (1 n)
  show ?case
  proof (cases "n < 10")
    case True
    then show ?thesis by (subst showNat.simps) (simp add: digitChar_isDigit)
  next
    case False
    with 1 show ?thesis by (subst showNat.simps) (simp add: digitChar_isDigit)
  qed
qed

lemma digitOnly_showNat: "digitOnly (showNat n)"
  by (simp add: digitOnly_def showNat_nonempty showNat_digits)

lemma digitsToNat_snoc: "digitsToNat (ds @ [c]) = digitsToNat ds * 10 + digitVal c"
  by (simp add: digitsToNat_def)

lemma digitsToNat_showNat: "digitsToNat (showNat n) = n"
proof (induction n rule: showNat.induct)
  case (1 n)
  show ?case
  proof (cases "n < 10")
    case True
    then show ?thesis
      by (subst showNat.simps) (simp add: digitsToNat_def digitVal_digitChar)
  next
    case False
    with 1 have "digitsToNat (showNat (n div 10)) = n div 10" by simp
    with False show ?thesis
      by (subst showNat.simps) (simp add: digitsToNat_snoc digitVal_digitChar)
  qed
qed

lemma floor_1000_of_nat: "\<lfloor>1000 * (of_nat s :: rat)\<rfloor> = 1000 * int s"
proof -
  have "1000 * (of_nat s :: rat) = of_int (1000 * int s)" by simp
  then show ?thesis by (simp only: floor_of_int)
qed

lemma floor_of_nat_1000: "\<lfloor>(of_nat s :: rat) * 1000\<rfloor> = 1000 * int s"
  using floor_1000_of_nat [of s] by (simp add: mult.commute)


section \<open>Properties of timestamp normalization\<close>

text \<open>
  Claim C7, as stated: for every instant, the seconds integer and the milliseconds
  integer are mapped to the same value. It fails at the instant 1000 s after the
  epoch: its seconds form 1000 is read as seconds, and its milliseconds form 1000000
  is below \<open>10^12\<close> and is read as seconds too.
\<close>

theorem normalizeTimestampMs_counterexample:
  "normalizeTimestampMs Map.empty (JSNumber 1000)
   \<noteq> normalizeTimestampMs Map.empty (JSNumber 1000000)"
  by (simp add: normalizeTimestampMs_def)

text \<open>
  Claim C7, amended: for every instant at a whole second \<open>s\<close> with
  \<open>10^9 \<le> s < 10^12\<close> (so that its millisecond value \<open>1000 s\<close> is at least \<open>10^12\<close>),
  \<open>normalizeTimestampMs\<close> maps the seconds integer, the milliseconds integer, the
  digit-only string of each, and every string that is not digit-only and that
  \<open>Date.parse\<close> reads as \<open>1000 s\<close>, to \<open>1000 s\<close>.
\<close>

theorem normalizeTimestampMs_representations:
  assumes "1000000000 \<le> s" and "s < 1000000000000"
  shows "normalizeTimestampMs dp (JSNumber (of_nat s)) = Inr (int (1000 * s))
       \<and> normalizeTimestampMs dp (JSNumber (of_nat (1000 * s))) = Inr (int (1000 * s))
       \<and> normalizeTimestampMs dp (JSString (showNat s)) = Inr (int (1000 * s))
       \<and> normalizeTimestampMs dp (JSString (showNat (1000 * s))) = Inr (int (1000 * s))
       \<and> (\<forall>iso. iso \<noteq> [] \<and> \<not> digitOnly iso \<and> dp iso = Some (int (1000 * s))
            \<longrightarrow> normalizeTimestampMs dp (JSString iso) = Inr (int (1000 * s)))"
  using assms
  by (simp add: normalizeTimestampMs_def digitOnly_showNat digitsToNat_showNat showNat_nonempty
      floor_1000_of_nat floor_of_nat_1000)


theorem normalizeTimestampMs_representations_witness:
  "normalizeTimestampMs [''2026-01-10T00:00:00.000Z'' \<mapsto> 1768003200000]
       (JSNumber 1768003200) = Inr 1768003200000
   \<and> normalizeTimestampMs [''2026-01-10T00:00:00.000Z'' \<mapsto> 1768003200000]
       (JSNumber 1768003200000) = Inr 1768003200000
   \<and> normalizeTimestampMs [''2026-01-10T00:00:00.000Z'' \<mapsto> 1768003200000]
       (JSString (showNat 1768003200)) = Inr 1768003200000
   \<and> normalizeTimestampMs [''2026-01-10T00:00:00.000Z'' \<mapsto> 1768003200000]
       (JSString (showNat 1768003200000)) = Inr 1768003200000
   \<and> normalizeTimestampMs [''2026-01-10T00:00:00.000Z'' \<mapsto> 1768003200000]
       (JSString ''2026-01-10T00:00:00.000Z'') = Inr 1768003200000"
proof -
  have h1: "(1000000000::nat) \<le> 1768003200" and h2: "(1768003200::nat) < 1000000000000"
    by simp_all
  have iso: "''2026-01-10T00:00:00.000Z'' \<noteq> []
             \<and> \<not> digitOnly ''2026-01-10T00:00:00.000Z''"
    by (simp add: digitOnly_def isDigit_def)
  from normalizeTimestampMs_representations
         [OF h1 h2, of "[''2026-01-10T00:00:00.000Z'' \<mapsto> 1768003200000]"] iso
  show ?thesis by simp
qed

section \<open>Properties of the rounding of doubles\<close>

lemma roundEven_of_int: "roundEven (of_int k) = k"
  by (simp add: roundEven_def)

lemma roundEven_floor: "\<lfloor>x\<rfloor> \<le> roundEven x \<and> roundEven x \<le> \<lfloor>x\<rfloor> + 1"
  by (simp add: roundEven_def Let_def)

lemma roundEven_lower: "x - 1 / 2 \<le> of_int (roundEven x)"
  unfolding roundEven_def Let_def by (auto; linarith)

lemma roundEven_upper: "of_int (roundEven x) \<le> x + 1 / 2"
  unfolding roundEven_def Let_def by (auto; linarith)

lemma roundEven_mono:
  assumes "x \<le> y"
  shows "roundEven x \<le> roundEven y"
proof (cases "\<lfloor>x\<rfloor> = \<lfloor>y\<rfloor>")
  case True
  then show ?thesis
    using assms unfolding roundEven_def Let_def by auto
next
  case False
  with assms have "\<lfloor>x\<rfloor> < \<lfloor>y\<rfloor>"
    using floor_mono [of x y] by linarith
  then show ?thesis
    using roundEven_floor [of x] roundEven_floor [of y] by linarith
qed

lemma binade_bounds:
  assumes "0 < x"
  shows "2 powi binade x \<le> x \<and> x < 2 powi (binade x + 1)"
proof (cases "1 \<le> x")
  case True
  define n where "n = \<lfloor>x\<rfloor>"
  have n: "1 \<le> n" "of_int n \<le> x" "x < of_int n + 1"
    using True by (simp_all add: n_def) linarith
  have b: "2 ^ nat (bitlen n - 1) \<le> n" "n < 2 ^ nat (bitlen n)"
    using bitlen_bounds [of n] n(1) by simp_all
  have k: "1 \<le> bitlen n"
    using n(1) by (auto simp: bitlen_alt_def)
  have e: "binade x = bitlen n - 1"
    using True by (simp add: binade_def n_def)
  have "(2::rat) powi binade x = of_int (2 ^ nat (bitlen n - 1))"
    using k by (simp add: e power_int_nonneg_exp)
  also have "\<dots> \<le> of_int n"
    using b(1) by (simp only: of_int_le_iff)
  finally have lo: "2 powi binade x \<le> x"
    using n(2) by linarith
  have "n + 1 \<le> 2 ^ nat (bitlen n)"
    using b(2) by linarith
  then have "(of_int (n + 1) :: rat) \<le> of_int (2 ^ nat (bitlen n))"
    by (simp only: of_int_le_iff)
  moreover have "(2::rat) powi (binade x + 1) = of_int (2 ^ nat (bitlen n))"
    using k by (simp add: e power_int_nonneg_exp)
  ultimately have "x < 2 powi (binade x + 1)"
    using n(3) by simp
  with lo show ?thesis by simp
next
  case False
  then have x1: "x < 1" by simp
  define m where "m = \<lceil>1 / x\<rceil>"
  have inv: "1 < 1 / x"
    using assms x1 by (simp add: field_simps)
  have m: "1 / x \<le> of_int m" "of_int m - 1 < 1 / x"
    by (simp_all add: m_def) linarith
  have "(of_int 1 :: rat) < of_int m"
    using inv m(1) by simp
  then have "1 < m"
    by (simp only: of_int_less_iff)
  then have m2: "1 \<le> m - 1"
    by simp
  define k where "k = bitlen (m - 1)"
  have b: "2 ^ nat (k - 1) \<le> m - 1" "m - 1 < 2 ^ nat k"
    using bitlen_bounds [of "m - 1"] m2 by (simp_all add: k_def)
  have k1: "1 \<le> k"
    using m2 by (auto simp: k_def bitlen_alt_def)
  have e: "binade x = - k"
    using False by (simp add: binade_def m_def k_def)
  have "m \<le> 2 ^ nat k"
    using b(2) by linarith
  then have "(of_int m :: rat) \<le> of_int (2 ^ nat k)"
    by (simp only: of_int_le_iff)
  then have "(of_int m :: rat) \<le> 2 ^ nat k"
    by simp
  then have up: "1 / x \<le> 2 ^ nat k"
    using m(1) by linarith
  have "(2::rat) powi binade x = 1 / 2 ^ nat k"
    using k1 by (simp add: e power_int_minus_divide power_int_nonneg_exp)
  also have "\<dots> \<le> x"
    using up assms by (simp add: field_simps)
  finally have lo: "2 powi binade x \<le> x" .
  have "(of_int (2 ^ nat (k - 1)) :: rat) \<le> of_int (m - 1)"
    using b(1) by (simp only: of_int_le_iff)
  then have "(2::rat) ^ nat (k - 1) \<le> of_int m - 1"
    by simp
  then have dn: "2 ^ nat (k - 1) < 1 / x"
    using m(2) by linarith
  have "binade x + 1 = - (k - 1)"
    by (simp add: e)
  then have "(2::rat) powi (binade x + 1) = 1 / 2 powi (k - 1)"
    by (simp only: power_int_minus_divide)
  then have "(2::rat) powi (binade x + 1) = 1 / 2 ^ nat (k - 1)"
    using k1 by (simp add: power_int_nonneg_exp)
  moreover have "x < 1 / 2 ^ nat (k - 1)"
    using dn assms by (simp add: field_simps)
  ultimately show ?thesis
    using lo by simp
qed

lemma binade_unique:
  assumes "0 < x" "2 powi e \<le> x" "x < 2 powi (e + 1)"
  shows "binade x = e"
proof -
  have b: "2 powi binade x \<le> x" "x < 2 powi (binade x + 1)"
    using binade_bounds [OF assms(1)] by simp_all
  have "(2::rat) powi e < 2 powi (binade x + 1)"
    using assms(2) b(2) by linarith
  then have 1: "e < binade x + 1"
    using power_int_increasing [of "binade x + 1" e "2::rat"] by (cases "e < binade x + 1") auto
  have "(2::rat) powi binade x < 2 powi (e + 1)"
    using assms(3) b(1) by linarith
  then have 2: "binade x < e + 1"
    using power_int_increasing [of "e + 1" "binade x" "2::rat"] by (cases "binade x < e + 1") auto
  from 1 2 show ?thesis by linarith
qed

lemma binade_mono:
  assumes "0 < x" "x \<le> y"
  shows "binade x \<le> binade y"
proof -
  have "(2::rat) powi binade x < 2 powi (binade y + 1)"
    using binade_bounds [of x] binade_bounds [of y] assms by linarith
  then have "binade x < binade y + 1"
    using power_int_increasing [of "binade y + 1" "binade x" "2::rat"]
    by (cases "binade x < binade y + 1") auto
  then show ?thesis by simp
qed


lemma ulp_pos: "0 < ulp x"
  by (simp add: ulp_def)

lemma ulp_binade: "ulp x * 2 ^ 52 = 2 powi binade x"
proof -
  have "(2::rat) powi binade x = 2 powi (binade x - 52 + 52)"
    by simp
  also have "\<dots> = 2 powi (binade x - 52) * 2 powi 52"
    by (rule power_int_add) simp
  finally show ?thesis
    by (simp add: ulp_def)
qed

lemma scaled_bounds:
  assumes "0 < x"
  shows "2 ^ 52 \<le> x / ulp x \<and> x / ulp x < 2 ^ 53"
proof -
  have b: "2 powi binade x \<le> x" "x < 2 powi (binade x + 1)"
    using binade_bounds [OF assms] by simp_all
  have up: "(2::rat) powi (binade x + 1) = 2 powi binade x * 2"
    by (simp add: power_int_add)
  have "ulp x * 2 ^ 52 \<le> x"
    using b(1) by (simp only: ulp_binade)
  then have lo: "2 ^ 52 \<le> x / ulp x"
    using ulp_pos [of x] by (simp add: field_simps)
  have "x < ulp x * 2 ^ 52 * 2"
    using b(2) by (simp only: up ulp_binade)
  then have "x / ulp x < 2 ^ 53"
    using ulp_pos [of x] by (simp add: field_simps)
  with lo show ?thesis by simp
qed

lemma mantissa_bounds:
  assumes "0 < x"
  shows "2 ^ 52 \<le> roundEven (x / ulp x) \<and> roundEven (x / ulp x) \<le> 2 ^ 53"
proof -
  have "roundEven (of_int (2 ^ 52)) \<le> roundEven (x / ulp x)"
    using scaled_bounds [OF assms] by (intro roundEven_mono) simp
  moreover have "roundEven (x / ulp x) \<le> roundEven (of_int (2 ^ 53))"
    using scaled_bounds [OF assms] by (intro roundEven_mono) simp
  ultimately show ?thesis
    by (simp only: roundEven_of_int)
qed

lemma roundPos_bounds:
  assumes "0 < x"
  shows "2 powi binade x \<le> roundPos x \<and> roundPos x \<le> 2 powi (binade x + 1)"
proof -
  have m: "(2::rat) ^ 52 \<le> of_int (roundEven (x / ulp x))"
          "(of_int (roundEven (x / ulp x)) :: rat) \<le> 2 ^ 53"
    using mantissa_bounds [OF assms] by (simp_all add: of_int_le_numeral_power_cancel_iff numeral_power_le_of_int_cancel_iff)
  have "2 ^ 52 * ulp x \<le> roundPos x"
    unfolding roundPos_def using m(1) ulp_pos [of x] by (intro mult_right_mono) simp_all
  then have lo: "2 powi binade x \<le> roundPos x"
    using ulp_binade [of x] by (simp add: mult.commute)
  have "roundPos x \<le> 2 ^ 53 * ulp x"
    unfolding roundPos_def using m(2) ulp_pos [of x] by (intro mult_right_mono) simp_all
  also have "\<dots> = ulp x * 2 ^ 52 * 2"
    by simp
  also have "\<dots> = 2 powi (binade x + 1)"
    by (simp only: ulp_binade) (simp add: power_int_add)
  finally show ?thesis
    using lo by simp
qed

lemma roundPos_pos: "0 < x \<Longrightarrow> 0 < roundPos x"
  using roundPos_bounds [of x] zero_less_power_int [of "2::rat" "binade x"] by linarith

lemma roundPos_mono:
  assumes "0 < x" "x \<le> y"
  shows "roundPos x \<le> roundPos y"
proof (cases "binade x = binade y")
  case True
  then have u: "ulp x = ulp y"
    by (simp add: ulp_def)
  have "x / ulp y \<le> y / ulp y"
    using assms(2) ulp_pos [of y] by (simp add: divide_right_mono)
  then have "roundEven (x / ulp y) \<le> roundEven (y / ulp y)"
    by (rule roundEven_mono)
  then have "(of_int (roundEven (x / ulp y)) :: rat) \<le> of_int (roundEven (y / ulp y))"
    by (simp only: of_int_le_iff)
  then show ?thesis
    unfolding roundPos_def u using ulp_pos [of y] by (intro mult_right_mono) simp_all
next
  case False
  then have "binade x + 1 \<le> binade y"
    using binade_mono [OF assms] by linarith
  then have "(2::rat) powi (binade x + 1) \<le> 2 powi binade y"
    by (intro power_int_increasing) simp_all
  moreover have "0 < y"
    using assms by linarith
  ultimately show ?thesis
    using roundPos_bounds [of x] roundPos_bounds [of y] assms(1) by linarith
qed

lemma roundDouble_mono:
  assumes "x \<le> y"
  shows "roundDouble x \<le> roundDouble y"
proof -
  consider "0 < x" | "x \<le> 0" "0 < y" | "x < 0" "y = 0" | "x = 0" "y = 0" | "y < 0"
    using assms by linarith
  then show ?thesis
  proof cases
    case 1
    then show ?thesis
      using assms roundPos_mono [of x y] by (simp add: roundDouble_def)
  next
    case 2
    then show ?thesis
      using roundPos_pos [of y] roundPos_pos [of "- x"]
      by (cases "x = 0") (simp_all add: roundDouble_def less_eq_rat_def [of 0])
  next
    case 3
    then show ?thesis
      using roundPos_pos [of "- x"] by (simp add: roundDouble_def)
  next
    case 4
    then show ?thesis by simp
  next
    case 5
    then have "roundPos (- y) \<le> roundPos (- x)"
      using assms by (intro roundPos_mono) simp_all
    then show ?thesis
      using 5 assms by (simp add: roundDouble_def)
  qed
qed

lemma roundPos_integral:
  assumes "0 < x" "x / ulp x = of_int m"
  shows "roundPos x = x"
proof -
  have "roundPos x = of_int m * ulp x"
    by (simp add: roundPos_def assms(2) roundEven_of_int)
  also have "\<dots> = x / ulp x * ulp x"
    by (simp only: assms(2))
  also have "\<dots> = x"
    using ulp_pos [of x] by simp
  finally show ?thesis .
qed

lemma roundPos_exact:
  assumes "0 < k" "k \<le> 2 ^ 53"
  shows "roundPos (of_int k * 2 powi j) = of_int k * 2 powi j"
proof -
  define y :: rat where "y = of_int k * 2 powi j"
  define d where "d = j - binade y + 52"
  have ypos: "0 < y"
    using assms(1) by (simp add: y_def)
  have b: "2 powi binade y \<le> y" "y < 2 powi (binade y + 1)"
    using binade_bounds [OF ypos] by simp_all
  have kr: "(of_int k :: rat) \<le> 2 ^ 53"
    using assms(2) by (simp add: of_int_le_numeral_power_cancel_iff)
  have "j - (binade y - 52) = d"
    by (simp add: d_def)
  then have "(2::rat) powi j / 2 powi (binade y - 52) = 2 powi d"
    using power_int_diff [of "2::rat" j "binade y - 52"] by simp
  then have "(of_int k :: rat) * (2 powi j / 2 powi (binade y - 52)) = of_int k * 2 powi d"
    by (simp only:)
  moreover have "y / ulp y = of_int k * (2 powi j / 2 powi (binade y - 52))"
    unfolding ulp_def by (subst y_def) simp
  ultimately have sc: "y / ulp y = of_int k * 2 powi d"
    by (simp only:)
  have "\<exists>m. y / ulp y = of_int m"
  proof (cases "0 \<le> d")
    case True
    then have "y / ulp y = of_int (k * 2 ^ nat d)"
      by (simp add: sc power_int_nonneg_exp)
    then show ?thesis ..
  next
    case False
    have "y \<le> 2 ^ 53 * 2 powi j"
      unfolding y_def using kr by (intro mult_right_mono) simp_all
    also have "\<dots> = 2 powi (j + 53)"
      by (simp add: power_int_add)
    finally have "(2::rat) powi binade y \<le> 2 powi (j + 53)"
      using b(1) by linarith
    then have "binade y \<le> j + 53"
      using power_int_strict_increasing [of "j + 53" "binade y" "2::rat"]
      by (cases "binade y \<le> j + 53") auto
    with False have e: "binade y = j + 53"
      by (simp add: d_def)
    have "(2::rat) powi (j + 53) = 2 ^ 53 * 2 powi j"
      by (simp add: power_int_add)
    then have "(2::rat) ^ 53 * 2 powi j \<le> y"
      using b(1) by (simp only: e)
    then have "(2::rat) ^ 53 * 2 powi j \<le> of_int k * 2 powi j"
      by (simp only: y_def)
    then have "(2::rat) ^ 53 \<le> of_int k"
      by simp
    with kr have "(of_int k :: rat) = of_int (2 ^ 53)"
      by simp
    moreover have "d = - 1"
      by (simp add: d_def e)
    ultimately have "y / ulp y = of_int (2 ^ 52)"
      by (simp add: sc)
    then show ?thesis ..
  qed
  then obtain m where "y / ulp y = of_int m" ..
  with ypos have "roundPos y = y"
    by (rule roundPos_integral)
  then show ?thesis
    by (simp only: y_def)
qed

lemma roundDouble_exact:
  assumes "\<bar>k\<bar> \<le> 2 ^ 53"
  shows "roundDouble (of_int k * 2 powi j) = of_int k * 2 powi j"
proof -
  consider "k = 0" | "0 < k" | "k < 0" by linarith
  then show ?thesis
  proof cases
    case 1
    then show ?thesis by (simp add: roundDouble_def)
  next
    case 2
    then have "roundPos (of_int k * 2 powi j) = of_int k * 2 powi j"
      using assms by (intro roundPos_exact) simp_all
    then show ?thesis
      using 2 by (simp add: roundDouble_def)
  next
    case 3
    then have "roundPos (of_int (- k) * 2 powi j) = of_int (- k) * 2 powi j"
      using assms by (intro roundPos_exact) simp_all
    moreover have "(of_int k :: rat) * 2 powi j < 0"
      using 3 by (simp add: mult_neg_pos)
    ultimately show ?thesis
      by (simp add: roundDouble_def)
  qed
qed

lemma roundDouble_of_int:
  assumes "\<bar>k\<bar> \<le> 2 ^ 53"
  shows "roundDouble (of_int k) = of_int k"
  using roundDouble_exact [OF assms, of 0] by simp

lemma roundDouble_of_nat:
  assumes "n \<le> 2 ^ 53"
  shows "roundDouble (of_nat n) = of_nat n"
  using roundDouble_of_int [of "int n"] assms by simp

lemma roundPos_representable:
  assumes "0 < x"
  shows "roundPos (roundPos x) = roundPos x"
proof -
  have "roundPos (of_int (roundEven (x / ulp x)) * 2 powi (binade x - 52)) =
        of_int (roundEven (x / ulp x)) * 2 powi (binade x - 52)"
    using mantissa_bounds [OF assms] by (intro roundPos_exact) simp_all
  then show ?thesis
    by (simp only: roundPos_def [of x] ulp_def [of x])
qed

lemma roundDouble_idem: "roundDouble (roundDouble x) = roundDouble x"
proof -
  consider "x = 0" | "0 < x" | "x < 0" by linarith
  then show ?thesis
  proof cases
    case 1
    then show ?thesis by (simp add: roundDouble_def)
  next
    case 2
    then show ?thesis
      using roundPos_pos [of x] roundPos_representable [of x] by (simp add: roundDouble_def)
  next
    case 3
    then show ?thesis
      using roundPos_pos [of "- x"] roundPos_representable [of "- x"]
      by (simp add: roundDouble_def)
  qed
qed

lemma roundDouble_nonneg: "0 \<le> x \<Longrightarrow> 0 \<le> roundDouble x"
  using roundPos_pos [of x] by (cases "x = 0") (simp_all add: roundDouble_def)

lemma roundDouble_upper:
  assumes "0 < x"
  shows "roundDouble x \<le> x * (1 + 1 / 2 ^ 53)"
proof -
  have "of_int (roundEven (x / ulp x)) * ulp x \<le> (x / ulp x + 1 / 2) * ulp x"
    using roundEven_upper [of "x / ulp x"] ulp_pos [of x] by (intro mult_right_mono) simp_all
  also have "\<dots> = x + ulp x / 2"
    using ulp_pos [of x] by (simp add: field_simps)
  finally have r: "roundPos x \<le> x + ulp x / 2"
    by (simp only: roundPos_def)
  have "ulp x * 2 ^ 52 \<le> x"
    using binade_bounds [OF assms] by (simp only: ulp_binade)
  then have "ulp x / 2 \<le> x / 2 ^ 53"
    by (simp add: field_simps)
  with r have "roundPos x \<le> x + x / 2 ^ 53"
    by linarith
  then show ?thesis
    using assms by (simp add: roundDouble_def field_simps)
qed

lemma roundDouble_0: "roundDouble 0 = 0"
  by (simp add: roundDouble_def)

lemma floor_rat_numeral: "\<lfloor>(numeral v / numeral w :: rat)\<rfloor> = numeral v div numeral w"
  using floor_divide_of_int_eq [of "numeral v" "numeral w", where ?'a = rat] by simp

lemma roundDouble_at:
  assumes "0 < x" and "2 powi e \<le> x" and "x < 2 powi (e + 1)"
  shows "roundDouble x = of_int (roundEven (x / 2 powi (e - 52))) * 2 powi (e - 52)"
  using assms by (simp add: roundDouble_def roundPos_def ulp_def binade_unique [OF assms])

lemma roundDouble_numeral:
  "(numeral v :: int) \<le> 2 ^ 53 \<Longrightarrow> roundDouble (numeral v) = numeral v"
  using roundDouble_of_int [of "numeral v"] by simp

lemma binade_53: "binade (2 ^ 53) = 53"
  by (rule binade_unique) simp_all

lemma roundPos_whole:
  assumes "0 < k"
  shows "\<exists>m. roundPos (of_int k) = of_int m"
proof (cases "k \<le> 2 ^ 53")
  case True
  with assms have "roundPos (of_int k * 2 powi 0) = of_int k * 2 powi 0"
    by (rule roundPos_exact)
  then have "roundPos (of_int k) = of_int k"
    by simp
  then show ?thesis ..
next
  case False
  then have "(of_int (2 ^ 53) :: rat) \<le> of_int k"
    by simp
  then have "(2::rat) ^ 53 \<le> of_int k"
    by simp
  then have "binade (2 ^ 53) \<le> binade (of_int k)"
    by (intro binade_mono) simp_all
  then have "53 \<le> binade (of_int k)"
    by (simp only: binade_53)
  then have "0 \<le> binade (of_int k) - 52"
    by simp
  then have "ulp (of_int k) = of_int (2 ^ nat (binade (of_int k) - 52))"
    by (simp add: ulp_def power_int_nonneg_exp)
  then have "roundPos (of_int k)
      = of_int (roundEven (of_int k / ulp (of_int k)) * 2 ^ nat (binade (of_int k) - 52))"
    by (simp add: roundPos_def)
  then show ?thesis ..
qed

lemma roundDouble_whole: "\<exists>m. roundDouble (of_int k) = of_int m"
proof -
  consider "k = 0" | "0 < k" | "k < 0" by linarith
  then show ?thesis
  proof cases
    case 1
    then have "roundDouble (of_int k) = of_int 0"
      by (simp add: roundDouble_def)
    then show ?thesis ..
  next
    case 2
    then obtain m where "roundPos (of_int k) = of_int m"
      using roundPos_whole by blast
    with 2 have "roundDouble (of_int k) = of_int m"
      by (simp add: roundDouble_def)
    then show ?thesis ..
  next
    case 3
    then obtain m where "roundPos (of_int (- k)) = of_int m"
      using roundPos_whole [of "- k"] by auto
    with 3 have "roundDouble (of_int k) = of_int (- m)"
      by (simp add: roundDouble_def)
    then show ?thesis ..
  qed
qed

section \<open>Properties of the partitioner\<close>

lemma chunks_length: "length (createTimestampChunks a b N) = N"
  by (simp add: createTimestampChunks_def Let_def)

lemma chunks_nth_start:
  "i < N \<Longrightarrow> startTs (createTimestampChunks a b N ! i) = chunkBoundary a b N i"
  by (simp add: createTimestampChunks_def chunkAt_def chunkBoundary_def chunkWidth_def Let_def)

lemma chunks_nth_end:
  "i < N \<Longrightarrow> endTs (createTimestampChunks a b N ! i)
     = (if i = N - 1 then \<lfloor>roundDouble (of_int b + 1)\<rfloor> else chunkBoundary a b N (i + 1))"
  by (simp add: createTimestampChunks_def chunkAt_def chunkBoundary_def chunkWidth_def Let_def)

lemma chunkBoundary_0:
  assumes "\<bar>a\<bar> \<le> 2 ^ 53"
  shows "chunkBoundary a b N 0 = a"
  by (simp add: chunkBoundary_def roundDouble_0 roundDouble_of_int [OF assms])

lemma chunkWidth_nonneg:
  assumes "a \<le> b"
  shows "0 \<le> chunkWidth a b N"
proof -
  have "0 \<le> roundDouble (of_int b - of_int a)"
    using assms by (intro roundDouble_nonneg) simp
  then show ?thesis
    unfolding chunkWidth_def by (intro roundDouble_nonneg) simp
qed

lemma chunkBoundary_mono:
  assumes "a \<le> b" and "i \<le> j"
  shows "chunkBoundary a b N i \<le> chunkBoundary a b N j"
proof -
  have "(of_nat i :: rat) \<le> of_nat j"
    using assms(2) by simp
  then have "chunkWidth a b N * of_nat i \<le> chunkWidth a b N * of_nat j"
    using chunkWidth_nonneg [OF assms(1)] by (rule mult_left_mono)
  then have "roundDouble (chunkWidth a b N * of_nat i) \<le> roundDouble (chunkWidth a b N * of_nat j)"
    by (rule roundDouble_mono)
  then have "roundDouble (of_int a + roundDouble (chunkWidth a b N * of_nat i))
               \<le> roundDouble (of_int a + roundDouble (chunkWidth a b N * of_nat j))"
    by (intro roundDouble_mono) simp
  then show ?thesis
    unfolding chunkBoundary_def by (rule floor_mono)
qed

lemma quotient_bound:
  assumes "1 \<le> N" and "N \<le> 2 ^ 53" and "0 < d"
  shows "roundDouble (d / of_nat N) * of_nat (N - 1) \<le> d"
proof -
  define q where "q = d / of_nat N"
  have q: "0 < q"
    using assms by (simp add: q_def)
  have n: "(of_nat (N - 1) :: rat) = of_nat N - 1"
    using assms(1) by (simp add: of_nat_diff)
  have "(of_nat N :: rat) \<le> of_nat (2 ^ 53)"
    using assms(2) by (simp only: of_nat_le_iff)
  then have "(of_nat N :: rat) \<le> 2 ^ 53"
    by simp
  then have "(of_nat N - 1 :: rat) / 2 ^ 53 \<le> 1"
    by simp
  then have f: "(1 + 1 / 2 ^ 53) * (of_nat N - 1 :: rat) \<le> of_nat N"
    by (simp add: algebra_simps)
  have "roundDouble q * of_nat (N - 1) \<le> q * (1 + 1 / 2 ^ 53) * of_nat (N - 1)"
    using roundDouble_upper [OF q] by (intro mult_right_mono) simp_all
  also have "\<dots> = q * ((1 + 1 / 2 ^ 53) * (of_nat N - 1))"
    by (simp only: n mult.assoc)
  also have "\<dots> \<le> q * of_nat N"
    using f q by (intro mult_left_mono) simp_all
  also have "\<dots> = d"
    using assms(1) by (simp add: q_def)
  finally show ?thesis
    by (simp only: q_def)
qed

lemma range_rounded:
  assumes "a < b" and "- (2 ^ 53) < a" and "b < 2 ^ 53"
  shows "0 < roundDouble (of_int b - of_int a)
       \<and> roundDouble (of_int b - of_int a) \<le> of_int (b - a) + 1"
proof -
  define h where "h = (b - a + 1) div 2"
  have h: "b - a \<le> 2 * h" "2 * h \<le> b - a + 1" "\<bar>h\<bar> \<le> 2 ^ 53"
    using assms by (simp_all add: h_def)
  have "(of_int (b - a) :: rat) \<le> of_int (2 * h)"
    using h(1) by (simp only: of_int_le_iff)
  then have "roundDouble (of_int b - of_int a) \<le> roundDouble (of_int h * 2 powi 1)"
    by (intro roundDouble_mono) simp
  also have "\<dots> = of_int h * 2 powi 1"
    using h(3) by (rule roundDouble_exact)
  also have "\<dots> = of_int (2 * h)"
    by simp
  also have "\<dots> \<le> of_int (b - a + 1)"
    using h(2) by (simp only: of_int_le_iff)
  finally have up: "roundDouble (of_int b - of_int a) \<le> of_int (b - a) + 1"
    by simp
  have "(of_int 1 :: rat) \<le> of_int (b - a)"
    using assms(1) by simp
  then have "roundDouble (of_int 1) \<le> roundDouble (of_int b - of_int a)"
    by (intro roundDouble_mono) simp
  moreover have "roundDouble (of_int 1) = of_int 1"
    by (rule roundDouble_of_int) simp
  ultimately have "0 < roundDouble (of_int b - of_int a)"
    by simp
  with up show ?thesis by simp
qed

lemma chunkBoundary_le_end:
  assumes "1 \<le> N" and "N < 2 ^ 53" and "a < b" and "- (2 ^ 53) < a" and "b < 2 ^ 53"
    and "i < N"
  shows "chunkBoundary a b N i \<le> b + 1"
proof -
  define d where "d = roundDouble (of_int b - of_int a)"
  have d: "0 < d" "d \<le> of_int (b - a) + 1"
    using range_rounded [OF assms(3-5)] by (simp_all add: d_def)
  have w: "chunkWidth a b N = roundDouble (d / of_nat N)"
    by (simp add: chunkWidth_def d_def)
  have w0: "0 \<le> chunkWidth a b N"
    using assms(3) by (intro chunkWidth_nonneg) simp
  have "(of_nat i :: rat) \<le> of_nat (N - 1)"
    using assms(6) by simp
  then have "chunkWidth a b N * of_nat i \<le> chunkWidth a b N * of_nat (N - 1)"
    using w0 by (rule mult_left_mono)
  also have "\<dots> \<le> d"
    unfolding w using assms(1,2) d(1) by (intro quotient_bound) simp_all
  finally have "roundDouble (chunkWidth a b N * of_nat i) \<le> roundDouble d"
    by (rule roundDouble_mono)
  also have "\<dots> = d"
    unfolding d_def by (rule roundDouble_idem)
  finally have "of_int a + roundDouble (chunkWidth a b N * of_nat i) \<le> of_int (b + 1)"
    using d(2) by simp
  then have "roundDouble (of_int a + roundDouble (chunkWidth a b N * of_nat i))
               \<le> roundDouble (of_int (b + 1))"
    by (rule roundDouble_mono)
  also have "\<dots> = of_int (b + 1)"
    using assms(3-5) by (intro roundDouble_of_int) simp
  finally have "chunkBoundary a b N i \<le> \<lfloor>(of_int (b + 1) :: rat)\<rfloor>"
    unfolding chunkBoundary_def by (rule floor_mono)
  then show ?thesis
    by (simp only: floor_of_int)
qed

lemma last_end:
  assumes "- (2 ^ 53) < b" and "b < 2 ^ 53"
  shows "\<lfloor>roundDouble (of_int b + 1)\<rfloor> = b + 1"
proof -
  have "roundDouble (of_int (b + 1)) = of_int (b + 1)"
    using assms by (intro roundDouble_of_int) simp
  then have "\<lfloor>roundDouble (of_int (b + 1))\<rfloor> = \<lfloor>(of_int (b + 1) :: rat)\<rfloor>"
    by (simp only:)
  then show ?thesis
    by simp
qed

lemma chunkBoundary_ge_start:
  assumes "a \<le> b" and "\<bar>a\<bar> \<le> 2 ^ 53"
  shows "a \<le> chunkBoundary a b N i"
  using chunkBoundary_mono [OF assms(1), of 0 i N] by (simp add: chunkBoundary_0 [OF assms(2)])

lemma chunk_end_le_next_start:
  assumes "a \<le> b" and "i < j" and "j < N"
  shows "endTs (createTimestampChunks a b N ! i) \<le> startTs (createTimestampChunks a b N ! j)"
proof -
  from assms have "i < N" and "i \<noteq> N - 1" by auto
  then have "endTs (createTimestampChunks a b N ! i) = chunkBoundary a b N (i + 1)"
    by (simp add: chunks_nth_end)
  moreover have "chunkBoundary a b N (i + 1) \<le> chunkBoundary a b N j"
    using assms by (intro chunkBoundary_mono) auto
  ultimately show ?thesis using assms by (simp add: chunks_nth_start)
qed

lemma chunks_cover_point:
  assumes "0 < N" and "\<bar>a\<bar> \<le> 2 ^ 53" and "\<lfloor>roundDouble (of_int b + 1)\<rfloor> = b + 1"
    and "a \<le> t" and "t \<le> b"
  shows "\<exists>i<N. startTs (createTimestampChunks a b N ! i) \<le> t
               \<and> t < endTs (createTimestampChunks a b N ! i)"
proof -
  let ?P = "\<lambda>i. i < N \<and> chunkBoundary a b N i \<le> t"
  have P0: "?P 0" using assms by (simp add: chunkBoundary_0)
  define m where "m = (GREATEST i. ?P i)"
  have bound: "\<And>y. ?P y \<Longrightarrow> y \<le> N" by auto
  have Pm: "?P m" unfolding m_def using P0 bound by (rule GreatestI_nat)
  have max: "i \<le> m" if "?P i" for i
    unfolding m_def using that bound by (rule Greatest_le_nat)
  show ?thesis
  proof (cases "m = N - 1")
    case True
    with Pm assms show ?thesis
      by (intro exI [of _ m]) (simp add: chunks_nth_start chunks_nth_end)
  next
    case False
    with Pm have lt: "m + 1 < N" by auto
    have "\<not> ?P (m + 1)" using max [of "m + 1"] by auto
    with lt have "t < chunkBoundary a b N (m + 1)" by auto
    with Pm False show ?thesis
      by (intro exI [of _ m]) (simp add: chunks_nth_start chunks_nth_end)
  qed
qed

lemma chunks_within_range:
  assumes "1 \<le> N" and "N < 2 ^ 53" and "a < b" and "- (2 ^ 53) < a" and "b < 2 ^ 53"
    and "i < N"
    and "startTs (createTimestampChunks a b N ! i) \<le> t"
    and "t < endTs (createTimestampChunks a b N ! i)"
  shows "a \<le> t \<and> t \<le> b"
proof -
  have "a \<le> chunkBoundary a b N i"
    using assms(3-5) by (intro chunkBoundary_ge_start) simp_all
  then have "a \<le> t"
    using assms(6,7) by (simp add: chunks_nth_start)
  moreover have "t \<le> b"
  proof (cases "i = N - 1")
    case True
    have "\<lfloor>roundDouble (of_int b + 1)\<rfloor> = b + 1"
      using assms(3-5) by (intro last_end) simp_all
    with True assms(6,8) show ?thesis by (simp add: chunks_nth_end)
  next
    case False
    with assms(6,8) have "t < chunkBoundary a b N (i + 1)" by (simp add: chunks_nth_end)
    moreover have "chunkBoundary a b N (i + 1) \<le> b + 1"
      using assms(1-6) False by (intro chunkBoundary_le_end) auto
    ultimately show ?thesis by simp
  qed
  ultimately show ?thesis ..
qed

text \<open>
  Claim C3, as stated: for every partition count \<open>N \<ge> 1\<close> and integer range \<open>a < b\<close>
  the last chunk ends at \<open>b + 1\<close> and the chunks cover \<open>[a, b]\<close>. It fails where
  \<open>endTs + 1\<close> is not a double: for the range \<open>[0, 2^53]\<close> and one partition the sum
  \<open>2^53 + 1\<close> is rounded to \<open>2^53\<close>, so the only chunk is \<open>[0, 2^53)\<close>, which ends at \<open>b\<close>
  and leaves the timestamp \<open>b = 2^53\<close> in no chunk.
\<close>

theorem createTimestampChunks_unsafe_range_counterexample:
  "(1::nat) \<le> 1 \<and> (0::int) < 9007199254740992
   \<and> createTimestampChunks 0 9007199254740992 1
        = [\<lparr>startTs = 0, endTs = 9007199254740992\<rparr>]
   \<and> endTs (createTimestampChunks 0 9007199254740992 1 ! (1 - 1)) \<noteq> 9007199254740992 + 1
   \<and> 9007199254740992 \<notin> {startTs (createTimestampChunks 0 9007199254740992 1 ! 0)
                              ..<endTs (createTimestampChunks 0 9007199254740992 1 ! 0)}"
proof -
  have "roundDouble 9007199254740993 = 9007199254740992"
    using roundDouble_at [of 9007199254740993 53]
    by (simp add: roundEven_def floor_rat_numeral Let_def)
  then have "createTimestampChunks 0 9007199254740992 1
        = [\<lparr>startTs = 0, endTs = 9007199254740992\<rparr>]"
    by (simp add: createTimestampChunks_def chunkAt_def Let_def roundDouble_0)
  then show ?thesis
    by simp
qed

text \<open>
  Claim C3, amended: for every partition count \<open>1 \<le> N < 2^53\<close> and every range of safe
  integers \<open>- 2^53 < a < b < 2^53\<close>, \<open>createTimestampChunks a b N\<close> returns \<open>N\<close> chunks;
  the first starts at \<open>a\<close>, the last ends at \<open>b + 1\<close>, each chunk ends where the next
  starts, the half-open intervals are pairwise disjoint and their union is \<open>[a, b]\<close>;
  for \<open>N = 1\<close> the single chunk is \<open>[a, b + 1)\<close>. The quotient \<open>width\<close>, the products
  \<open>width * i\<close> and the sums are rounded as the doubles of the source are.
\<close>

theorem createTimestampChunks_partition:
  assumes "1 \<le> N" and "N < 2 ^ 53" and "a < b" and "- (2 ^ 53) < a" and "b < 2 ^ 53"
  shows "(let chunks = createTimestampChunks a b N in
          length chunks = N
        \<and> startTs (chunks ! 0) = a
        \<and> endTs (chunks ! (N - 1)) = b + 1
        \<and> (\<forall>i. i + 1 < N \<longrightarrow> endTs (chunks ! i) = startTs (chunks ! (i + 1)))
        \<and> (\<forall>i j. i < j \<and> j < N \<longrightarrow>
              {startTs (chunks ! i)..<endTs (chunks ! i)}
                \<inter> {startTs (chunks ! j)..<endTs (chunks ! j)} = {})
        \<and> (\<Union>i<N. {startTs (chunks ! i)..<endTs (chunks ! i)}) = {a..b}
        \<and> (N = 1 \<longrightarrow> chunks = [\<lparr>startTs = a, endTs = b + 1\<rparr>]))"
proof -
  from assms have N: "0 < N" and ab: "a \<le> b" and a: "\<bar>a\<bar> \<le> 2 ^ 53" by auto
  have e: "\<lfloor>roundDouble (of_int b + 1)\<rfloor> = b + 1"
    using assms(3-5) by (intro last_end) simp_all
  let ?c = "createTimestampChunks a b N"
  have 1: "length ?c = N" by (rule chunks_length)
  have 2: "startTs (?c ! 0) = a" using N by (simp add: chunks_nth_start chunkBoundary_0 [OF a])
  have 3: "endTs (?c ! (N - 1)) = b + 1" using N by (simp add: chunks_nth_end e)
  have 4: "\<forall>i. i + 1 < N \<longrightarrow> endTs (?c ! i) = startTs (?c ! (i + 1))"
    by (auto simp: chunks_nth_start chunks_nth_end)
  have 5: "\<forall>i j. i < j \<and> j < N \<longrightarrow>
              {startTs (?c ! i)..<endTs (?c ! i)} \<inter> {startTs (?c ! j)..<endTs (?c ! j)} = {}"
  proof (intro allI impI)
    fix i j assume "i < j \<and> j < N"
    then have "endTs (?c ! i) \<le> startTs (?c ! j)"
      using chunk_end_le_next_start [OF ab, of i j N] by simp
    then show "{startTs (?c ! i)..<endTs (?c ! i)} \<inter> {startTs (?c ! j)..<endTs (?c ! j)} = {}"
      by auto
  qed
  have 6: "(\<Union>i<N. {startTs (?c ! i)..<endTs (?c ! i)}) = {a..b}"
  proof (intro set_eqI iffI)
    fix t assume "t \<in> (\<Union>i<N. {startTs (?c ! i)..<endTs (?c ! i)})"
    then obtain i where "i < N" "startTs (?c ! i) \<le> t" "t < endTs (?c ! i)" by auto
    then show "t \<in> {a..b}" using chunks_within_range [OF assms, of i t] by simp
  next
    fix t assume "t \<in> {a..b}"
    then have "a \<le> t" "t \<le> b" by auto
    from chunks_cover_point [OF N a e this]
    show "t \<in> (\<Union>i<N. {startTs (?c ! i)..<endTs (?c ! i)})" by auto
  qed
  have 7: "N = 1 \<longrightarrow> ?c = [\<lparr>startTs = a, endTs = b + 1\<rparr>]"
  proof
    assume n: "N = 1"
    have "length ?c = 1" using n by (simp add: chunks_length)
    moreover have "?c ! 0 = \<lparr>startTs = a, endTs = b + 1\<rparr>"
      using 2 3 n by simp
    ultimately show "?c = [\<lparr>startTs = a, endTs = b + 1\<rparr>]"
      by (cases ?c) simp_all
  qed
  from 1 2 3 4 5 6 7 show ?thesis unfolding Let_def by blast
qed

theorem createTimestampChunks_partition_witness:
  "(1::nat) \<le> 14 \<and> (14::nat) < 2 ^ 53 \<and> (0::int) < 122 \<and> - (2 ^ 53) < (0::int)
   \<and> (122::int) < 2 ^ 53
   \<and> length (createTimestampChunks 0 122 14) = 14
   \<and> startTs (createTimestampChunks 0 122 14 ! 0) = 0
   \<and> endTs (createTimestampChunks 0 122 14 ! 6) = 60
   \<and> startTs (createTimestampChunks 0 122 14 ! 7) = 60
   \<and> endTs (createTimestampChunks 0 122 14 ! 13) = 123
   \<and> {startTs (createTimestampChunks 0 122 14 ! 6)..<endTs (createTimestampChunks 0 122 14 ! 6)}
       \<inter> {startTs (createTimestampChunks 0 122 14 ! 7)
            ..<endTs (createTimestampChunks 0 122 14 ! 7)} = {}
   \<and> (\<Union>i<14. {startTs (createTimestampChunks 0 122 14 ! i)
                 ..<endTs (createTimestampChunks 0 122 14 ! i)}) = {0..122}"
proof -
  have h: "(1::nat) \<le> 14" "(14::nat) < 2 ^ 53" "(0::int) < 122" "- (2 ^ 53) < (0::int)"
    "(122::int) < 2 ^ 53"
    by simp_all
  note p = createTimestampChunks_partition [OF h, unfolded Let_def]
  have w: "roundDouble (61 / 7) = 4905706736957147 / 562949953421312"
    using roundDouble_at [of "61 / 7" 3] by (simp add: roundEven_def floor_rat_numeral Let_def)
  have x: "roundDouble (34339947158700029 / 562949953421312)
             = 8584986789675007 / 140737488355328"
    using roundDouble_at [of "34339947158700029 / 562949953421312" 5]
    by (simp add: roundEven_def floor_rat_numeral Let_def)
  have y: "roundDouble (8584986789675007 / 140737488355328)
             = 8584986789675007 / 140737488355328"
    using roundDouble_at [of "8584986789675007 / 140737488355328" 5]
    by (simp add: roundEven_def floor_rat_numeral Let_def)
  have s: "startTs (createTimestampChunks 0 122 14 ! 7) = 60"
    by (simp add: chunks_nth_start chunkBoundary_def chunkWidth_def roundDouble_numeral
          w x y floor_rat_numeral)
  have e: "endTs (createTimestampChunks 0 122 14 ! 6) = startTs (createTimestampChunks 0 122 14 ! 7)"
    using p by simp
  have d: "{startTs (createTimestampChunks 0 122 14 ! 6)..<endTs (createTimestampChunks 0 122 14 ! 6)}
       \<inter> {startTs (createTimestampChunks 0 122 14 ! 7)
            ..<endTs (createTimestampChunks 0 122 14 ! 7)} = {}"
    using p by simp
  from p h s e d show ?thesis
    by simp
qed

section \<open>Properties of the cursor codec\<close>

subsection \<open>Base64url\<close>

lemma base64Encode_sextets:
  "\<exists>k. base64Encode bs = map b64char (encodeSextets bs) @ replicate k (CHR ''='')"
proof (induction bs rule: base64Encode.induct)
  case (1 a b c rest)
  then show ?case by auto
next
  case (2 a b)
  show ?case by (rule exI [of _ "Suc 0"]) simp
next
  case (3 a)
  show ?case by (rule exI [of _ "Suc (Suc 0)"]) simp
next
  case 4
  show ?case by simp
qed

lemma encodeSextets_bound:
  "\<forall>b\<in>set bs. b < 256 \<Longrightarrow> \<forall>x\<in>set (encodeSextets bs). x < 64"
proof (induction bs rule: encodeSextets.induct)
  case (1 a b c rest)
  then have "a < 256" "b < 256" "c < 256" by simp_all
  then have "a div 4 < 64" "(a mod 4) * 16 + b div 16 < 64" "(b mod 16) * 4 + c div 64 < 64"
    "c mod 64 < 64" by arith+
  with 1 show ?case by simp
next
  case (2 a b)
  then have "a < 256" "b < 256" by simp_all
  then have "a div 4 < 64" "(a mod 4) * 16 + b div 16 < 64" "(b mod 16) * 4 < 64" by arith+
  then show ?case by simp
next
  case (3 a)
  then have "a < 256" by simp
  then have "a div 4 < 64" "(a mod 4) * 16 < 64" by arith+
  then show ?case by simp
next
  case 4
  show ?case by simp
qed

lemma sextet_byte1: "(b::nat) < 256 \<Longrightarrow> (a div 4) * 4 + ((a mod 4) * 16 + b div 16) div 16 = a"
proof -
  assume "b < 256"
  then have "b div 16 < 16" by simp
  then have "((a mod 4) * 16 + b div 16) div 16 = a mod 4" by simp
  then show ?thesis by simp
qed

lemma sextet_byte2: "(b::nat) < 256 \<Longrightarrow> c < 256 \<Longrightarrow>
  (((a mod 4) * 16 + b div 16) mod 16) * 16 + ((b mod 16) * 4 + c div 64) div 4 = b"
proof -
  assume "b < 256" "c < 256"
  then have "b div 16 < 16" "c div 64 < 4" by simp_all
  then have "((a mod 4) * 16 + b div 16) mod 16 = b div 16"
    and "((b mod 16) * 4 + c div 64) div 4 = b mod 16" by simp_all
  then show ?thesis by simp
qed

lemma sextet_byte3: "(c::nat) < 256 \<Longrightarrow> (((b mod 16) * 4 + c div 64) mod 4) * 64 + c mod 64 = c"
proof -
  assume "c < 256"
  then have "c div 64 < 4" by simp
  then have "((b mod 16) * 4 + c div 64) mod 4 = c div 64" by simp
  then show ?thesis by simp
qed


lemma decodeGroups_encodeSextets:
  "\<forall>b\<in>set bs. b < 256 \<Longrightarrow> decodeGroups (encodeSextets bs) = bs"
proof (induction bs rule: encodeSextets.induct)
  case (1 a b c rest)
  then have "b < 256" "c < 256" by simp_all
  with 1 show ?case by (simp add: sextet_byte1 sextet_byte2 sextet_byte3)
next
  case (2 a b)
  then have b: "b < 256" by simp
  have "(((a mod 4) * 16 + b div 16) mod 16) * 16 + ((b mod 16) * 4) div 4 = b"
    using sextet_byte2 [OF b, of 0 a] by simp
  with b show ?case by (simp add: sextet_byte1)
next
  case (3 a)
  have "(a div 4) * 4 + ((a mod 4) * 16) div 16 = a"
    using sextet_byte1 [of 0 a] by simp
  then show ?case by simp
next
  case 4
  show ?case by simp
qed

lemma urlChar_table:
  "map urlChar [0..<64]
   = ''ABCDEFGHIJKLMNOPQRSTUVWXYZabcdefghijklmnopqrstuvwxyz0123456789-_''"
  by (simp add: upt_rec urlChar_def b64char_def b64alphabet_def Let_def)

lemma b64value_table:
  "map (\<lambda>n. b64value (if (if urlChar n = CHR ''-'' then CHR ''+'' else urlChar n) = CHR ''_''
                        then CHR ''/''
                        else (if urlChar n = CHR ''-'' then CHR ''+'' else urlChar n)))
       [0..<64]
   = map Some [0..<64]"
  by (simp add: upt_rec urlChar_def b64char_def b64alphabet_def b64value_def Let_def)

lemma urlChar_props:
  assumes "n < 64"
  shows "urlChar n \<noteq> CHR ''=''"
    and "b64value (if (if urlChar n = CHR ''-'' then CHR ''+'' else urlChar n) = CHR ''_''
                   then CHR ''/''
                   else (if urlChar n = CHR ''-'' then CHR ''+'' else urlChar n)) = Some n"
    and "urlChar n \<noteq> CHR ''+''" and "urlChar n \<noteq> CHR ''/''"
proof -
  from assms have "urlChar n \<in> set (map urlChar [0..<64])" by simp
  then have mem: "urlChar n
      \<in> set ''ABCDEFGHIJKLMNOPQRSTUVWXYZabcdefghijklmnopqrstuvwxyz0123456789-_''"
    by (simp only: urlChar_table)
  from mem show "urlChar n \<noteq> CHR ''=''" by auto
  from mem show "urlChar n \<noteq> CHR ''+''" by auto
  from mem show "urlChar n \<noteq> CHR ''/''" by auto
  let ?f = "\<lambda>n. b64value (if (if urlChar n = CHR ''-'' then CHR ''+'' else urlChar n) = CHR ''_''
                        then CHR ''/''
                        else (if urlChar n = CHR ''-'' then CHR ''+'' else urlChar n))"
  from assms have "?f n = map ?f [0..<64] ! n" by simp
  also have "\<dots> = map Some [0..<64] ! n" by (simp only: b64value_table)
  also have "\<dots> = Some n" using assms by simp
  finally show "?f n = Some n" .
qed

lemma b64value_pad: "b64value (CHR ''='') = None"
  by (simp add: b64value_def)

lemma replaceChar_urlChar:
  "replaceChar (CHR ''/'') (CHR ''_'') (replaceChar (CHR ''+'') (CHR ''-'') (map b64char sx))
   = map urlChar sx"
  by (simp add: replaceChar_def urlChar_def Let_def)

lemma replaceChar_append: "replaceChar a b (xs @ ys) = replaceChar a b xs @ replaceChar a b ys"
  by (simp add: replaceChar_def)

lemma replaceChar_pad:
  "a \<noteq> CHR ''='' \<Longrightarrow> replaceChar a b (replicate k (CHR ''='')) = replicate k (CHR ''='')"
  by (simp add: replaceChar_def)

lemma dropWhile_none: "\<forall>x\<in>set ys. \<not> P x \<Longrightarrow> dropWhile P ys = ys"
  by (cases ys) auto

lemma stripPadding_pad:
  assumes "CHR ''='' \<notin> set xs"
  shows "stripPadding (xs @ replicate k (CHR ''='')) = xs"
proof -
  have "dropWhile (\<lambda>c. c = CHR ''='') (replicate k (CHR ''='') @ rev xs)
        = dropWhile (\<lambda>c. c = CHR ''='') (rev xs)"
    by (rule dropWhile_append2) simp
  also have "\<dots> = rev xs"
    using assms by (intro dropWhile_none) auto
  finally show ?thesis by (simp add: stripPadding_def)
qed

lemma toBase64Url_sextets:
  "toBase64Url s = map urlChar (encodeSextets (map of_char s))"
proof -
  let ?sx = "encodeSextets (map of_char s)"
  obtain k where enc: "base64Encode (map of_char s) = map b64char ?sx @ replicate k (CHR ''='')"
    using base64Encode_sextets by blast
  have bound: "\<forall>x\<in>set ?sx. x < 64"
    by (rule encodeSextets_bound) simp
  have nopad: "CHR ''='' \<notin> set (map urlChar ?sx)"
  proof
    assume "CHR ''='' \<in> set (map urlChar ?sx)"
    then obtain x where "x \<in> set ?sx" "urlChar x = CHR ''=''" by auto
    with bound urlChar_props(1) [of x] show False by blast
  qed
  have "toBase64Url s = stripPadding (map urlChar ?sx @ replicate k (CHR ''=''))"
    by (simp add: toBase64Url_def enc replaceChar_append replaceChar_pad replaceChar_urlChar)
  also have "\<dots> = map urlChar ?sx"
    using nopad by (rule stripPadding_pad)
  finally show ?thesis .
qed

lemma sextets_step:
  assumes "n < 64"
  shows "sextets (replaceChar (CHR ''_'') (CHR ''/'') (replaceChar (CHR ''-'') (CHR ''+'') (urlChar n # cs)))
         = n # sextets (replaceChar (CHR ''_'') (CHR ''/'') (replaceChar (CHR ''-'') (CHR ''+'') cs))"
proof -
  let ?c = "if (if urlChar n = CHR ''-'' then CHR ''+'' else urlChar n) = CHR ''_''
            then CHR ''/'' else (if urlChar n = CHR ''-'' then CHR ''+'' else urlChar n)"
  have v: "b64value ?c = Some n" using urlChar_props(2) [OF assms] .
  then have ne: "?c \<noteq> CHR ''=''" using b64value_pad by auto
  have "replaceChar (CHR ''_'') (CHR ''/'') (replaceChar (CHR ''-'') (CHR ''+'') (urlChar n # cs))
        = ?c # replaceChar (CHR ''_'') (CHR ''/'') (replaceChar (CHR ''-'') (CHR ''+'') cs)"
    by (simp add: replaceChar_def)
  then show ?thesis
    using v ne by (simp only: sextets.simps if_False option.case)
qed

lemma sextets_urlChar:
  "\<forall>x\<in>set sx. x < 64 \<Longrightarrow>
   sextets (replaceChar (CHR ''_'') (CHR ''/'') (replaceChar (CHR ''-'') (CHR ''+'') (map urlChar sx)))
   = sx"
proof (induction sx)
  case Nil
  show ?case by (simp add: replaceChar_def)
next
  case (Cons n sx)
  then have n: "n < 64" by simp
  from Cons show ?case by (simp only: list.map sextets_step [OF n]) simp
qed

lemma toBase64Url_chars:
  assumes "c \<in> set (toBase64Url s)"
  shows "c \<noteq> CHR ''='' \<and> c \<noteq> CHR ''+'' \<and> c \<noteq> CHR ''/''"
proof -
  have bound: "\<forall>x\<in>set (encodeSextets (map of_char s)). x < 64"
    by (rule encodeSextets_bound) simp
  from assms have "c \<in> urlChar ` set (encodeSextets (map of_char s))"
    by (simp only: toBase64Url_sextets set_map)
  then obtain x where x: "x \<in> set (encodeSextets (map of_char s))" and c: "c = urlChar x"
    by (rule imageE)
  from bound x have "x < 64" by (rule bspec)
  then have "urlChar x \<noteq> CHR ''=''" "urlChar x \<noteq> CHR ''+''" "urlChar x \<noteq> CHR ''/''"
    by (rule urlChar_props(1), rule urlChar_props(3), rule urlChar_props(4))
  then show ?thesis by (simp only: c) simp
qed

lemma fromBase64Url_toBase64Url: "fromBase64Url (toBase64Url s) = s"
proof -
  let ?bs = "map of_char s :: nat list"
  have bytes: "\<forall>b\<in>set ?bs. b < 256" by simp
  have "base64Decode (replaceChar (CHR ''_'') (CHR ''/'')
          (replaceChar (CHR ''-'') (CHR ''+'') (toBase64Url s))) = ?bs"
    unfolding base64Decode_def toBase64Url_sextets
    by (simp only: sextets_urlChar [OF encodeSextets_bound [OF bytes]]
        decodeGroups_encodeSextets [OF bytes])
  then show ?thesis by (simp add: fromBase64Url_def Let_def comp_def)
qed

subsection \<open>Lexing the payload\<close>

lemma digitChar_0: "digitChar 0 = CHR ''0''"
  by (simp add: digitChar_def char_of_eq_iff)

lemma digitChar_nonzero: "0 < d \<Longrightarrow> d < 10 \<Longrightarrow> digitChar d \<noteq> CHR ''0''"
proof
  assume "0 < d" "d < 10" "digitChar d = CHR ''0''"
  from \<open>d < 10\<close> have "digitVal (digitChar d) = d" by (rule digitVal_digitChar)
  moreover have "digitVal (CHR ''0'') = 0" by (simp add: digitVal_def)
  ultimately show False using \<open>0 < d\<close> \<open>digitChar d = CHR ''0''\<close> by simp
qed

lemma isDigit_neq: "isDigit d \<Longrightarrow> \<not> isDigit c \<Longrightarrow> d \<noteq> c"
  by auto

lemma special_not_digit:
  "\<not> isDigit (CHR ''{'')" "\<not> isDigit (CHR ''}'')" "\<not> isDigit (CHR '':'')"
  "\<not> isDigit (CHR '','')" "\<not> isDigit (CHR '' '')" "\<not> isDigit (CHR 0x09)"
  "\<not> isDigit (CHR 0x0A)" "\<not> isDigit (CHR 0x0D)" "\<not> isDigit (CHR 0x22)"
  "\<not> isDigit (CHR ''-'')"
  by (simp_all add: isDigit_def)

lemma isDigit_not_special:
  assumes "isDigit d"
  shows "punct d = None \<and> \<not> isSpace d \<and> d \<noteq> CHR 0x22 \<and> d \<noteq> CHR ''-''"
  using special_not_digit [THEN isDigit_neq [OF assms]]
  by (simp add: punct_def isSpace_def)

lemma punct_not_digit:
  assumes "punct c = Some p"
  shows "\<not> isDigit c"
proof -
  from assms have "c = CHR ''{'' \<or> c = CHR ''}'' \<or> c = CHR '':'' \<or> c = CHR '',''"
    by (simp add: punct_def split: if_splits)
  then show ?thesis using special_not_digit by blast
qed

lemma lex_digits:
  "list_all isDigit xs \<Longrightarrow>
   lex (InNumber neg ds) acc (xs @ rest) = lex (InNumber neg (ds @ xs)) acc rest"
  by (induction xs arbitrary: ds) simp_all

lemma showNat_hd_nonzero: "0 < n \<Longrightarrow> hd (showNat n) \<noteq> CHR ''0''"
proof (induction n rule: showNat.induct)
  case (1 n)
  show ?case
  proof (cases "n < 10")
    case True
    with 1(2) show ?thesis
      by (subst showNat.simps) (simp add: digitChar_nonzero)
  next
    case False
    then have "0 < n div 10" by simp
    with 1(1) False have "hd (showNat (n div 10)) \<noteq> CHR ''0''" by simp
    with False show ?thesis
      by (subst showNat.simps) (simp add: showNat_nonempty)
  qed
qed

lemma showNat_0: "showNat 0 = ''0''"
  by (subst showNat.simps) (simp add: digitChar_0)

lemma numberToken_showNat:
  "numberToken neg (showNat n) = Some (TNumber (if neg then - int n else int n))"
proof (cases "n = 0")
  case True
  then show ?thesis by (simp add: numberToken_def showNat_0 digitsToNat_def digitVal_def)
next
  case False
  then have "hd (showNat n) \<noteq> CHR ''0''" by (simp add: showNat_hd_nonzero)
  then show ?thesis
    by (simp add: numberToken_def showNat_nonempty digitsToNat_showNat)
qed

lemma lex_showNat:
  assumes "punct c = Some p"
  shows "lex (InNumber neg []) acc (showNat n @ c # cs)
         = lex Idle (p # TNumber (if neg then - int n else int n) # acc) cs"
proof -
  have "lex (InNumber neg []) acc (showNat n @ c # cs)
        = lex (InNumber neg (showNat n)) acc (c # cs)"
    using lex_digits [OF showNat_digits, of neg "[]" acc n "c # cs"] by simp
  also have "\<dots> = lex Idle (p # TNumber (if neg then - int n else int n) # acc) cs"
    using assms punct_not_digit [OF assms] by (simp add: numberToken_showNat)
  finally show ?thesis .
qed

lemma lex_showInt:
  assumes "punct c = Some p"
  shows "lex Idle acc (showInt t @ c # cs) = lex Idle (p # TNumber t # acc) cs"
proof (cases "t < 0")
  case True
  have "punct (CHR ''-'') = None" "\<not> isSpace (CHR ''-'')"
    by (simp_all add: punct_def isSpace_def)
  with True show ?thesis
    using lex_showNat [OF assms, of True acc "nat (- t)" cs]
    by (simp add: showInt_def)
next
  case False
  obtain d ds where sn: "showNat (nat t) = d # ds"
    using showNat_nonempty [of "nat t"] by (cases "showNat (nat t)") auto
  with showNat_digits [of "nat t"] have d: "isDigit d" and ds: "list_all isDigit ds" by simp_all
  have "lex Idle acc (showInt t @ c # cs) = lex (InNumber False [d]) acc (ds @ c # cs)"
    using False sn isDigit_not_special [OF d] d by (simp add: showInt_def)
  also have "\<dots> = lex (InNumber False (showNat (nat t))) acc (c # cs)"
    using lex_digits [OF ds, of False "[d]" acc "c # cs"] sn by simp
  also have "\<dots> = lex Idle (p # TNumber t # acc) cs"
    using assms punct_not_digit [OF assms] False by (simp add: numberToken_showNat)
  finally show ?thesis .
qed

lemma lex_string_chars:
  "\<forall>c\<in>set xs. c \<noteq> CHR 0x22 \<and> c \<noteq> CHR 0x5C \<and> 32 \<le> (of_char c :: nat) \<Longrightarrow>
   lex (InString s) acc (xs @ CHR 0x22 # rest) = lex Idle (TString (s @ xs) # acc) rest"
  by (induction xs arbitrary: s) (simp_all add: not_less [symmetric])

lemma lex_quoteJson:
  assumes "\<forall>c\<in>set s. c \<noteq> CHR 0x22 \<and> c \<noteq> CHR 0x5C \<and> 32 \<le> (of_char c :: nat)"
  shows "lex Idle acc (quoteJson s @ rest) = lex Idle (TString s # acc) rest"
  using lex_string_chars [OF assms, of "[]" acc rest]
  by (simp add: quoteJson_def punct_def isSpace_def)

lemma lex_punct:
  "punct c = Some p \<Longrightarrow> lex Idle acc (c # rest) = lex Idle (p # acc) rest"
  by simp

lemma plain_NULL_UUID:
  "\<forall>c\<in>set NULL_UUID. c \<noteq> CHR 0x22 \<and> c \<noteq> CHR 0x5C \<and> 32 \<le> (of_char c :: nat)"
  by (simp add: NULL_UUID_def)

lemma plain_keys:
  "\<forall>c\<in>set ''id''. c \<noteq> CHR 0x22 \<and> c \<noteq> CHR 0x5C \<and> 32 \<le> (of_char c :: nat)"
  "\<forall>c\<in>set ''ts''. c \<noteq> CHR 0x22 \<and> c \<noteq> CHR 0x5C \<and> 32 \<le> (of_char c :: nat)"
  "\<forall>c\<in>set ''v''. c \<noteq> CHR 0x22 \<and> c \<noteq> CHR 0x5C \<and> 32 \<le> (of_char c :: nat)"
  "\<forall>c\<in>set ''exp''. c \<noteq> CHR 0x22 \<and> c \<noteq> CHR 0x5C \<and> 32 \<le> (of_char c :: nat)"
  by simp_all

lemma lex_payload:
  "lex Idle [] (JSON_stringify (JObject
        [(''id'', JStr NULL_UUID), (''ts'', JNum t), (''v'', JNum 2), (''exp'', JNum FAR_FUTURE_EXP)]))
     = Some [TLBrace, TString ''id'', TColon, TString NULL_UUID, TComma,
             TString ''ts'', TColon, TNumber t, TComma,
             TString ''v'', TColon, TNumber 2, TComma,
             TString ''exp'', TColon, TNumber FAR_FUTURE_EXP, TRBrace]"
proof -
  have comma: "punct (CHR '','') = Some TComma" by (simp add: punct_def)
  have rbrace: "punct (CHR ''}'') = Some TRBrace" by (simp add: punct_def)
  have lbrace: "punct (CHR ''{'') = Some TLBrace" by (simp add: punct_def)
  have colon: "punct (CHR '':'') = Some TColon" by (simp add: punct_def)
  show ?thesis
    by (simp only: JSON_stringify.simps stringifyMembers.simps stringifyScalar.simps
        append_Cons append_Nil append_assoc
        lex_punct [OF lbrace] lex_punct [OF colon] lex_punct [OF comma] lex_punct [OF rbrace]
        lex_quoteJson [OF plain_NULL_UUID] lex_quoteJson [OF plain_keys(1)]
        lex_quoteJson [OF plain_keys(2)] lex_quoteJson [OF plain_keys(3)]
        lex_quoteJson [OF plain_keys(4)]
        lex_showInt [OF comma] lex_showInt [OF rbrace] lex.simps(1) rev.simps)
qed

lemma JSON_parse_payload:
  "JSON_parse (JSON_stringify (JObject
        [(''id'', JStr NULL_UUID), (''ts'', JNum t), (''v'', JNum 2), (''exp'', JNum FAR_FUTURE_EXP)]))
   = Some (JObject
        [(''id'', JStr NULL_UUID), (''ts'', JNum t), (''v'', JNum 2), (''exp'', JNum FAR_FUTURE_EXP)])"
  unfolding JSON_parse_def lex_payload by simp

lemma decode_forge: "decodeCursorTimestamp (forgeCursor t) = Some t"
  by (simp add: decodeCursorTimestamp_def forgeCursor_def Let_def fromBase64Url_toBase64Url
      JSON_parse_payload del: JSON_stringify.simps)

text \<open>
  Claim C2: for every integer timestamp \<open>t\<close>, decoding the forged cursor gives \<open>t\<close>
  back; the forged cursor is the base64url text, padding stripped, of the JSON object
  with \<open>id\<close> the null UUID, \<open>ts = t\<close>, \<open>v = 2\<close> and \<open>exp = 4102444800000\<close>.
\<close>

theorem decodeCursorTimestamp_forgeCursor:
  "decodeCursorTimestamp (forgeCursor t) = Some t
   \<and> forgeCursor t = toBase64Url (JSON_stringify (JObject
         [(''id'', JStr ''00000000-0000-0000-0000-000000000000''), (''ts'', JNum t),
          (''v'', JNum 2), (''exp'', JNum 4102444800000)]))
   \<and> CHR ''='' \<notin> set (forgeCursor t) \<and> CHR ''+'' \<notin> set (forgeCursor t)
   \<and> CHR ''/'' \<notin> set (forgeCursor t)"
proof -
  have 1: "decodeCursorTimestamp (forgeCursor t) = Some t" by (rule decode_forge)
  have 2: "forgeCursor t = toBase64Url (JSON_stringify (JObject
         [(''id'', JStr ''00000000-0000-0000-0000-000000000000''), (''ts'', JNum t),
          (''v'', JNum 2), (''exp'', JNum 4102444800000)]))"
    by (simp add: forgeCursor_def Let_def NULL_UUID_def FAR_FUTURE_EXP_def
        del: JSON_stringify.simps)
  have 3: "CHR ''='' \<notin> set (forgeCursor t) \<and> CHR ''+'' \<notin> set (forgeCursor t)
           \<and> CHR ''/'' \<notin> set (forgeCursor t)"
    unfolding forgeCursor_def Let_def using toBase64Url_chars by blast
  from 1 2 3 show ?thesis by blast
qed

section \<open>Properties of the relational store and the write queue\<close>

lemma sqlInsertEvents_snd_Cons:
  "snd (sqlInsertEvents (e # es) db) =
     (if ingested_events db (eventId e) \<noteq> None then snd (sqlInsertEvents es db)
      else snd (sqlInsertEvents es
             (db\<lparr>ingested_events := (ingested_events db)
                  (eventId e \<mapsto> \<lparr>timestamp_ms = timestampMs e, payload_json = payload e\<rparr>)\<rparr>)))"
  by (simp add: Let_def case_prod_beta)

lemma sqlInsertEvents_checkpoints:
  "worker_checkpoints (snd (sqlInsertEvents evs db)) = worker_checkpoints db"
proof (induction evs arbitrary: db)
  case Nil
  show ?case by simp
next
  case (Cons e es)
  show ?case unfolding sqlInsertEvents_snd_Cons by (simp add: Cons.IH)
qed

lemma sqlInsertEvents_keeps:
  "ingested_events db k \<noteq> None \<Longrightarrow>
   ingested_events (snd (sqlInsertEvents evs db)) k = ingested_events db k"
proof (induction evs arbitrary: db)
  case Nil
  then show ?case by simp
next
  case (Cons e es)
  show ?case
  proof (cases "ingested_events db (eventId e) \<noteq> None")
    case True
    with Cons show ?thesis unfolding sqlInsertEvents_snd_Cons by simp
  next
    case False
    let ?db1 = "db\<lparr>ingested_events := (ingested_events db)
                     (eventId e \<mapsto> \<lparr>timestamp_ms = timestampMs e, payload_json = payload e\<rparr>)\<rparr>"
    from Cons.prems False have ne: "k \<noteq> eventId e" by auto
    with Cons.prems have "ingested_events ?db1 k \<noteq> None" by simp
    from Cons.IH [OF this] ne False show ?thesis
      unfolding sqlInsertEvents_snd_Cons by simp
  qed
qed

lemma sqlInsertEvents_present:
  "e \<in> set evs \<Longrightarrow> ingested_events (snd (sqlInsertEvents evs db)) (eventId e) \<noteq> None"
proof (induction evs arbitrary: db)
  case Nil
  then show ?case by simp
next
  case (Cons x xs)
  let ?db1 = "db\<lparr>ingested_events := (ingested_events db)
                   (eventId x \<mapsto> \<lparr>timestamp_ms = timestampMs x, payload_json = payload x\<rparr>)\<rparr>"
  show ?case
  proof (cases "e = x")
    case True
    show ?thesis
    proof (cases "ingested_events db (eventId x) \<noteq> None")
      case True
      with \<open>e = x\<close> show ?thesis
        unfolding sqlInsertEvents_snd_Cons by (simp add: sqlInsertEvents_keeps)
    next
      case False
      have "ingested_events ?db1 (eventId x) \<noteq> None" by simp
      then have "ingested_events (snd (sqlInsertEvents xs ?db1)) (eventId x)
                 = ingested_events ?db1 (eventId x)"
        by (rule sqlInsertEvents_keeps)
      with False \<open>e = x\<close> show ?thesis
        unfolding sqlInsertEvents_snd_Cons by simp
    qed
  next
    case False
    with Cons.prems have "e \<in> set xs" by simp
    from Cons.IH [OF this] show ?thesis
      unfolding sqlInsertEvents_snd_Cons by simp
  qed
qed

lemma sqlUpdateCheckpoint_events:
  "ingested_events (sqlUpdateCheckpoint cp db) = ingested_events db"
  by (simp add: sqlUpdateCheckpoint_def split: option.splits)

lemma sqlUpdateCheckpoint_absent:
  "worker_checkpoints db (cpWorkerId cp) = None \<Longrightarrow> sqlUpdateCheckpoint cp db = db"
  by (simp add: sqlUpdateCheckpoint_def)

lemma sqlUpdateCheckpoint_present:
  "worker_checkpoints db (cpWorkerId cp) = Some row \<Longrightarrow>
   worker_checkpoints (sqlUpdateCheckpoint cp db) (cpWorkerId cp)
     = Some (row\<lparr>cursor_col := cpCursor cp, last_ts := cpLastTs cp,
                fetched_count := cpFetchedCount cp, inserted_count := cpInsertedCount cp,
                status_col := cpStatus cp\<rparr>)"
  by (simp add: sqlUpdateCheckpoint_def)

lemma sqlUpdateCheckpoint_dom:
  "(worker_checkpoints (sqlUpdateCheckpoint cp db) w \<noteq> None)
     = (worker_checkpoints db w \<noteq> None)"
  by (auto simp: sqlUpdateCheckpoint_def split: option.splits)

lemma sqlInsertCheckpoints_dom:
  "(worker_checkpoints (sqlInsertCheckpoints ps db) w \<noteq> None)
     = (worker_checkpoints db w \<noteq> None \<or> w \<in> fst ` set ps)"
  by (induction ps db rule: sqlInsertCheckpoints.induct) auto

lemma currentDb_runStatement:
  "currentDb (snd (runStatement stmt client)) = snd (stmt (currentDb client))"
  by (simp add: runStatement_def currentDb_def case_prod_beta split: option.splits)

lemma upsertWorkerCheckpoint_currentDb:
  "currentDb (snd (upsertWorkerCheckpoint False client cp))
     = sqlUpdateCheckpoint cp (currentDb client)"
  by (simp add: upsertWorkerCheckpoint_def case_prod_beta currentDb_runStatement)

lemma upsertWorkerCheckpoint_absent:
  assumes "worker_checkpoints (currentDb client) (cpWorkerId cp) = None"
  shows "upsertWorkerCheckpoint False client cp = (Inr (), client)"
proof (cases "pending client")
  case None
  with assms have "sqlUpdateCheckpoint cp (committed client) = committed client"
    by (simp add: currentDb_def sqlUpdateCheckpoint_absent)
  with None show ?thesis
    by (simp add: upsertWorkerCheckpoint_def runStatement_def)
next
  case (Some work)
  with assms have "sqlUpdateCheckpoint cp work = work"
    by (simp add: currentDb_def sqlUpdateCheckpoint_absent)
  with Some show ?thesis
    by (simp add: upsertWorkerCheckpoint_def runStatement_def)
qed

lemma zip_upt_fst: "i < length xs \<Longrightarrow> i \<in> fst ` set (zip [0..<length xs] xs)"
proof -
  assume "i < length xs"
  then have "(i, xs ! i) \<in> set (zip [0..<length xs] xs)"
    by (auto simp: in_set_zip intro!: exI [of _ i])
  then show ?thesis by force
qed

lemma initializeWorkerCheckpoints_rows:
  assumes "i < length chunks"
  shows "worker_checkpoints (snd (initializeWorkerCheckpoints False db chunks)) i \<noteq> None"
proof -
  from assms have "chunks \<noteq> []" by auto
  then have "snd (initializeWorkerCheckpoints False db chunks)
             = sqlInsertCheckpoints (zip [0..<length chunks] chunks) db"
    by (simp add: initializeWorkerCheckpoints_def)
  with zip_upt_fst [OF assms] show ?thesis
    by (simp only: sqlInsertCheckpoints_dom) blast
qed


text \<open>
  Claim C9: when \<open>worker_checkpoints\<close> holds no row for the \<open>workerId\<close> of a checkpoint,
  \<open>upsertWorkerCheckpoint\<close> (its query accepted by the driver) completes without error
  and leaves the connection as it was: the \<open>UPDATE\<close> matches no row and creates none.
  In general it creates no row, and where the row exists it holds the checkpoint
  afterwards; \<open>initializeWorkerCheckpoints\<close> creates the row of every worker
  \<open>i < length chunks\<close>.
\<close>

theorem upsertWorkerCheckpoint_missing_row:
  "(worker_checkpoints (currentDb client) (cpWorkerId cp) = None
      \<longrightarrow> upsertWorkerCheckpoint False client cp = (Inr (), client))
   \<and> (\<forall>w. (worker_checkpoints (currentDb (snd (upsertWorkerCheckpoint False client cp))) w \<noteq> None)
           = (worker_checkpoints (currentDb client) w \<noteq> None))
   \<and> (\<forall>row. worker_checkpoints (currentDb client) (cpWorkerId cp) = Some row
        \<longrightarrow> worker_checkpoints (currentDb (snd (upsertWorkerCheckpoint False client cp)))
              (cpWorkerId cp)
            = Some (row\<lparr>cursor_col := cpCursor cp, last_ts := cpLastTs cp,
                       fetched_count := cpFetchedCount cp,
                       inserted_count := cpInsertedCount cp, status_col := cpStatus cp\<rparr>))
   \<and> (\<forall>i<length chunks.
         worker_checkpoints (snd (initializeWorkerCheckpoints False db chunks)) i \<noteq> None)"
proof (intro conjI allI impI)
  assume "worker_checkpoints (currentDb client) (cpWorkerId cp) = None"
  then show "upsertWorkerCheckpoint False client cp = (Inr (), client)"
    by (rule upsertWorkerCheckpoint_absent)
next
  fix w
  show "(worker_checkpoints (currentDb (snd (upsertWorkerCheckpoint False client cp))) w \<noteq> None)
           = (worker_checkpoints (currentDb client) w \<noteq> None)"
    unfolding upsertWorkerCheckpoint_currentDb by (rule sqlUpdateCheckpoint_dom)
next
  fix row
  assume "worker_checkpoints (currentDb client) (cpWorkerId cp) = Some row"
  then show "worker_checkpoints (currentDb (snd (upsertWorkerCheckpoint False client cp)))
              (cpWorkerId cp)
            = Some (row\<lparr>cursor_col := cpCursor cp, last_ts := cpLastTs cp,
                       fetched_count := cpFetchedCount cp,
                       inserted_count := cpInsertedCount cp, status_col := cpStatus cp\<rparr>)"
    unfolding upsertWorkerCheckpoint_currentDb by (rule sqlUpdateCheckpoint_present)
next
  fix i
  assume "i < length chunks"
  then show "worker_checkpoints (snd (initializeWorkerCheckpoints False db chunks)) i \<noteq> None"
    by (rule initializeWorkerCheckpoints_rows)
qed

theorem upsertWorkerCheckpoint_missing_row_witness:
  "upsertWorkerCheckpoint False \<lparr>committed = emptyDb, pending = None\<rparr> exampleUpdate
     = (Inr (), \<lparr>committed = emptyDb, pending = None\<rparr>)
   \<and> worker_checkpoints
        (currentDb (snd (upsertWorkerCheckpoint False \<lparr>committed = exampleDb, pending = None\<rparr>
                           exampleUpdate))) 0
       = Some (exampleRow\<lparr>cursor_col := Some ''cursor-2'', last_ts := Some 1768400000000,
                          fetched_count := 2, inserted_count := 0, status_col := RUNNING\<rparr>)
   \<and> worker_checkpoints
        (snd (initializeWorkerCheckpoints False emptyDb (createTimestampChunks 0 3000 3))) 2
       \<noteq> None"
proof -
  have len: "2 < length (createTimestampChunks 0 3000 3)"
    by (simp add: createTimestampChunks_def)
  have absent: "worker_checkpoints (currentDb \<lparr>committed = emptyDb, pending = None\<rparr>)
                  (cpWorkerId exampleUpdate) = None"
    by (simp add: currentDb_def emptyDb_def)
  have present: "worker_checkpoints (currentDb \<lparr>committed = exampleDb, pending = None\<rparr>)
                  (cpWorkerId exampleUpdate) = Some exampleRow"
    by (simp add: currentDb_def exampleDb_def exampleUpdate_def)
  from upsertWorkerCheckpoint_missing_row
         [of "\<lparr>committed = emptyDb, pending = None\<rparr>" exampleUpdate
             "createTimestampChunks 0 3000 3" emptyDb]
       upsertWorkerCheckpoint_missing_row
         [of "\<lparr>committed = exampleDb, pending = None\<rparr>" exampleUpdate "[]" emptyDb]
       len absent present
  show ?thesis by (simp add: exampleUpdate_def)
qed

lemma executeWrite_cases:
  "executeWrite f pool task =
     (if connectFails f then (Inl (DriverError ''connect''), pool)
      else if beginFails f
        then (Inl (DriverError ''BEGIN''), if rollbackFails f then pool else pool\<lparr>pending := None\<rparr>)
      else if taskEvents task \<noteq> [] \<and> insertFails f
        then (Inl (DbError ''insertEvents''),
              if rollbackFails f then pool\<lparr>pending := Some (currentDb pool)\<rparr>
              else pool\<lparr>pending := None\<rparr>)
      else if updateFails f
        then (Inl (DbError ''upsertWorkerCheckpoint''),
              if rollbackFails f
              then pool\<lparr>pending := Some (snd (sqlInsertEvents (taskEvents task) (currentDb pool)))\<rparr>
              else pool\<lparr>pending := None\<rparr>)
      else if commitFails f
        then (Inl (DriverError ''COMMIT''),
              if rollbackFails f
              then pool\<lparr>pending := Some (sqlUpdateCheckpoint (taskCheckpoint task)
                       (snd (sqlInsertEvents (taskEvents task) (currentDb pool))))\<rparr>
              else pool\<lparr>pending := None\<rparr>)
      else (Inr (fst (sqlInsertEvents (taskEvents task) (currentDb pool))),
            pool\<lparr>committed := sqlUpdateCheckpoint (taskCheckpoint task)
                       (snd (sqlInsertEvents (taskEvents task) (currentDb pool))),
                 pending := None\<rparr>))"
  by (cases "taskEvents task"; cases "pending pool")
     (auto simp: executeWrite_def executeWriteTry_def insertEvents_def upsertWorkerCheckpoint_def
        runStatement_def sqlBegin_def sqlCommit_def sqlRollback_def currentDb_def Let_def
        case_prod_beta)

lemma executeWrite_committed_events:
  assumes "e \<in> set evs"
  shows "ingested_events (sqlUpdateCheckpoint cp (snd (sqlInsertEvents evs db))) (eventId e)
         \<noteq> None"
  using sqlInsertEvents_present [OF assms, of db] by (simp add: sqlUpdateCheckpoint_events)

lemma executeWrite_committed_row:
  assumes "worker_checkpoints db (cpWorkerId cp) = Some row"
  shows "worker_checkpoints (sqlUpdateCheckpoint cp (snd (sqlInsertEvents evs db))) (cpWorkerId cp)
         = Some (row\<lparr>cursor_col := cpCursor cp, last_ts := cpLastTs cp,
                    fetched_count := cpFetchedCount cp, inserted_count := cpInsertedCount cp,
                    status_col := cpStatus cp\<rparr>)"
proof -
  from assms have "worker_checkpoints (snd (sqlInsertEvents evs db)) (cpWorkerId cp) = Some row"
    by (simp only: sqlInsertEvents_checkpoints)
  then show ?thesis by (rule sqlUpdateCheckpoint_present)
qed

lemma executeWrite_committed_no_row:
  assumes "worker_checkpoints db (cpWorkerId cp) = None"
  shows "worker_checkpoints (sqlUpdateCheckpoint cp (snd (sqlInsertEvents evs db))) (cpWorkerId cp)
         = None"
proof -
  from assms have "worker_checkpoints (snd (sqlInsertEvents evs db)) (cpWorkerId cp) = None"
    by (simp only: sqlInsertEvents_checkpoints)
  then show ?thesis by (simp add: sqlUpdateCheckpoint_absent)
qed

lemma executeWrite_success:
  assumes "\<not> (connectFails f \<or> beginFails f \<or> (taskEvents task \<noteq> [] \<and> insertFails f)
            \<or> updateFails f \<or> commitFails f)"
  shows "executeWrite f pool task =
           (Inr (fst (sqlInsertEvents (taskEvents task) (currentDb pool))),
            pool\<lparr>committed := sqlUpdateCheckpoint (taskCheckpoint task)
                       (snd (sqlInsertEvents (taskEvents task) (currentDb pool))),
                 pending := None\<rparr>)"
  using assms unfolding executeWrite_cases by auto

lemma executeWrite_failure:
  assumes "connectFails f \<or> beginFails f \<or> (taskEvents task \<noteq> [] \<and> insertFails f)
            \<or> updateFails f \<or> commitFails f"
  shows "\<exists>err client. executeWrite f pool task = (Inl err, client)
           \<and> committed client = committed pool
           \<and> (\<not> connectFails f \<and> \<not> rollbackFails f \<longrightarrow> client = pool\<lparr>pending := None\<rparr>)"
  using assms unfolding executeWrite_cases by auto

text \<open>
  Claim C1, as stated: for every write task, after a successful commit the inserted
  events and the updated checkpoint row are visible together. It fails for a task whose
  worker has no row in \<open>worker_checkpoints\<close>: the task succeeds, its event is committed,
  and there is no checkpoint row, since the checkpoint is written by a plain \<open>UPDATE\<close>.
\<close>

theorem executeWrite_no_row_counterexample:
  "fst (executeWrite noFaults \<lparr>committed = emptyDb, pending = None\<rparr> exampleTask) = Inr 1
   \<and> ingested_events
        (committed (snd (executeWrite noFaults \<lparr>committed = emptyDb, pending = None\<rparr> exampleTask)))
        ''e1''
       = Some \<lparr>timestamp_ms = 1768500000000, payload_json = ''{}''\<rparr>
   \<and> worker_checkpoints
        (committed (snd (executeWrite noFaults \<lparr>committed = emptyDb, pending = None\<rparr> exampleTask)))
        (cpWorkerId (taskCheckpoint exampleTask))
       = None"
  by (simp add: executeWrite_def executeWriteTry_def insertEvents_def
      upsertWorkerCheckpoint_def runStatement_def sqlBegin_def sqlCommit_def noFaults_def
      exampleTask_def exampleUpdate_def emptyDb_def sqlUpdateCheckpoint_def Let_def)

text \<open>
  Claim C1, amended: for every write task executed by the write queue, the bulk event
  insert and the checkpoint update happen in one database transaction. On a successful
  commit the committed database is the one the connection saw, with the insert and the
  \<open>UPDATE\<close> of the checkpoint both applied: the inserted events are visible, and with them
  the worker's row holding the task's checkpoint when \<open>worker_checkpoints\<close> had a row for
  that \<open>workerId\<close>; when it had none there is still none. If any step fails the error is
  rethrown and the committed events table and checkpoint rows are unchanged; the
  transaction is rolled back when \<open>ROLLBACK\<close> itself is accepted. The task fails exactly
  when one of its steps does.
\<close>

theorem executeWrite_atomic:
  "(case executeWrite f pool task of
      (Inr inserted, client) \<Rightarrow>
        committed client = sqlUpdateCheckpoint (taskCheckpoint task)
                             (snd (sqlInsertEvents (taskEvents task) (currentDb pool)))
        \<and> inserted = fst (sqlInsertEvents (taskEvents task) (currentDb pool))
        \<and> pending client = None
        \<and> (\<forall>e\<in>set (taskEvents task).
              ingested_events (committed client) (eventId e) \<noteq> None)
        \<and> (\<forall>row. worker_checkpoints (currentDb pool) (cpWorkerId (taskCheckpoint task))
                    = Some row
              \<longrightarrow> worker_checkpoints (committed client) (cpWorkerId (taskCheckpoint task))
                  = Some (row\<lparr>cursor_col := cpCursor (taskCheckpoint task),
                             last_ts := cpLastTs (taskCheckpoint task),
                             fetched_count := cpFetchedCount (taskCheckpoint task),
                             inserted_count := cpInsertedCount (taskCheckpoint task),
                             status_col := cpStatus (taskCheckpoint task)\<rparr>))
        \<and> (worker_checkpoints (currentDb pool) (cpWorkerId (taskCheckpoint task)) = None
              \<longrightarrow> worker_checkpoints (committed client) (cpWorkerId (taskCheckpoint task))
                  = None)
    | (Inl err, client) \<Rightarrow>
        committed client = committed pool
        \<and> (\<not> connectFails f \<and> \<not> rollbackFails f \<longrightarrow> client = pool\<lparr>pending := None\<rparr>))
   \<and> (isl (fst (executeWrite f pool task))
        = (connectFails f \<or> beginFails f \<or> (taskEvents task \<noteq> [] \<and> insertFails f)
           \<or> updateFails f \<or> commitFails f))"
proof (cases "connectFails f \<or> beginFails f \<or> (taskEvents task \<noteq> [] \<and> insertFails f)
            \<or> updateFails f \<or> commitFails f")
  case True
  from executeWrite_failure [OF True] obtain err client where
    "executeWrite f pool task = (Inl err, client)" "committed client = committed pool"
    "\<not> connectFails f \<and> \<not> rollbackFails f \<longrightarrow> client = pool\<lparr>pending := None\<rparr>" by blast
  with True show ?thesis by simp
next
  case False
  note run = executeWrite_success [OF False]
  have ev: "\<forall>e\<in>set (taskEvents task).
              ingested_events (sqlUpdateCheckpoint (taskCheckpoint task)
                 (snd (sqlInsertEvents (taskEvents task) (currentDb pool)))) (eventId e) \<noteq> None"
    using executeWrite_committed_events by blast
  have row: "\<forall>row. worker_checkpoints (currentDb pool) (cpWorkerId (taskCheckpoint task)) = Some row
               \<longrightarrow> worker_checkpoints (sqlUpdateCheckpoint (taskCheckpoint task)
                      (snd (sqlInsertEvents (taskEvents task) (currentDb pool))))
                      (cpWorkerId (taskCheckpoint task))
                   = Some (row\<lparr>cursor_col := cpCursor (taskCheckpoint task),
                              last_ts := cpLastTs (taskCheckpoint task),
                              fetched_count := cpFetchedCount (taskCheckpoint task),
                              inserted_count := cpInsertedCount (taskCheckpoint task),
                              status_col := cpStatus (taskCheckpoint task)\<rparr>)"
    using executeWrite_committed_row by blast
  have norow: "worker_checkpoints (currentDb pool) (cpWorkerId (taskCheckpoint task)) = None
               \<longrightarrow> worker_checkpoints (sqlUpdateCheckpoint (taskCheckpoint task)
                      (snd (sqlInsertEvents (taskEvents task) (currentDb pool))))
                      (cpWorkerId (taskCheckpoint task)) = None"
    using executeWrite_committed_no_row by blast
  from False ev row norow show ?thesis
    unfolding run by (simp del: sqlInsertEvents.simps)
qed

theorem executeWrite_atomic_witness:
  "fst (executeWrite noFaults \<lparr>committed = exampleDb, pending = None\<rparr> exampleTask) = Inr 1
   \<and> ingested_events
        (committed (snd (executeWrite noFaults \<lparr>committed = exampleDb, pending = None\<rparr> exampleTask)))
        ''e1'' \<noteq> None
   \<and> worker_checkpoints
        (committed (snd (executeWrite noFaults \<lparr>committed = exampleDb, pending = None\<rparr> exampleTask)))
        0
       = Some (exampleRow\<lparr>cursor_col := Some ''cursor-2'', last_ts := Some 1768400000000,
                          fetched_count := 2, inserted_count := 0, status_col := RUNNING\<rparr>)
   \<and> executeWrite (noFaults\<lparr>commitFails := True\<rparr>) \<lparr>committed = exampleDb, pending = None\<rparr>
        exampleTask
       = (Inl (DriverError ''COMMIT''), \<lparr>committed = exampleDb, pending = None\<rparr>)
   \<and> committed (snd (executeWrite (noFaults\<lparr>updateFails := True, rollbackFails := True\<rparr>)
                        \<lparr>committed = exampleDb, pending = None\<rparr> exampleTask))
       = exampleDb"
proof -
  let ?pool = "\<lparr>committed = exampleDb, pending = None\<rparr>"
  have cur: "currentDb ?pool = exampleDb" by (simp add: currentDb_def)
  have ok: "executeWrite noFaults ?pool exampleTask
            = (Inr 1, ?pool\<lparr>committed := sqlUpdateCheckpoint exampleUpdate
                 (snd (sqlInsertEvents (taskEvents exampleTask) exampleDb))\<rparr>)"
    by (simp add: executeWrite_def executeWriteTry_def insertEvents_def
        upsertWorkerCheckpoint_def runStatement_def sqlBegin_def sqlCommit_def noFaults_def
        exampleTask_def exampleDb_def Let_def)
  have bad: "executeWrite (noFaults\<lparr>commitFails := True\<rparr>) ?pool exampleTask
             = (Inl (DriverError ''COMMIT''), ?pool)"
    by (simp add: executeWrite_def executeWriteTry_def insertEvents_def
        upsertWorkerCheckpoint_def runStatement_def sqlBegin_def sqlCommit_def sqlRollback_def
        noFaults_def exampleTask_def exampleDb_def Let_def)
  have leak: "executeWrite (noFaults\<lparr>updateFails := True, rollbackFails := True\<rparr>) ?pool
                exampleTask
              = (Inl (DbError ''upsertWorkerCheckpoint''),
                 ?pool\<lparr>pending := Some (snd (sqlInsertEvents (taskEvents exampleTask) exampleDb))\<rparr>)"
    by (simp add: executeWrite_def executeWriteTry_def insertEvents_def
        upsertWorkerCheckpoint_def runStatement_def sqlBegin_def sqlCommit_def sqlRollback_def
        noFaults_def exampleTask_def exampleDb_def Let_def)
  from executeWrite_atomic [where f = noFaults and pool = ?pool and task = exampleTask]
  have 1: "ingested_events (committed (snd (executeWrite noFaults ?pool exampleTask))) ''e1'' \<noteq> None
      \<and> worker_checkpoints (committed (snd (executeWrite noFaults ?pool exampleTask))) 0
       = Some (exampleRow\<lparr>cursor_col := Some ''cursor-2'', last_ts := Some 1768400000000,
                          fetched_count := 2, inserted_count := 0, status_col := RUNNING\<rparr>)"
    unfolding ok cur by (simp add: exampleTask_def exampleUpdate_def exampleDb_def)
  from executeWrite_atomic
         [where f = "noFaults\<lparr>updateFails := True, rollbackFails := True\<rparr>"
            and pool = ?pool and task = exampleTask]
  have 2: "committed (snd (executeWrite (noFaults\<lparr>updateFails := True, rollbackFails := True\<rparr>)
                        ?pool exampleTask)) = exampleDb"
    unfolding leak by simp
  from ok bad 1 2 show ?thesis by simp
qed

section \<open>Properties of the worker\<close>

lemma filterEvents_fst:
  "fst (filterEvents lo hi evs)
   = filter (\<lambda>e. timestampMs e < hi) (takeWhile (\<lambda>e. lo \<le> timestampMs e) evs)"
  by (induction evs) (auto simp: case_prod_beta)

lemma filterEvents_snd:
  "snd (filterEvents lo hi evs) = (\<exists>e\<in>set evs. timestampMs e < lo)"
  by (induction evs) (auto simp: case_prod_beta)

lemma takeWhile_descending:
  assumes "sorted_wrt (\<lambda>x y. timestampMs y \<le> timestampMs x) evs"
  shows "filter (\<lambda>e. timestampMs e < hi) (takeWhile (\<lambda>e. lo \<le> timestampMs e) evs)
         = filter (\<lambda>e. lo \<le> timestampMs e \<and> timestampMs e < hi) evs"
  using assms
proof (induction evs)
  case Nil
  show ?case by simp
next
  case (Cons e es)
  show ?case
  proof (cases "lo \<le> timestampMs e")
    case True
    with Cons show ?thesis by simp
  next
    case False
    with Cons.prems have "\<forall>x\<in>set es. \<not> lo \<le> timestampMs x" by auto
    then have "filter (\<lambda>e. lo \<le> timestampMs e \<and> timestampMs e < hi) es = []"
      by (simp add: filter_empty_conv)
    with False show ?thesis by simp
  qed
qed

lemma mathMin_Min:
  assumes "xs \<noteq> []"
  shows "mathMin xs = Some (Min (set xs))"
proof (cases xs)
  case Nil
  with assms show ?thesis by simp
next
  case (Cons x rest)
  have "fold min rest x = Min (set (x # rest))" by (rule Min.set_eq_fold [symmetric])
  with Cons show ?thesis by simp
qed

lemma processPage_enqueueLog:
  assumes "processPage ctx checkpoint vs page = Inr vs'"
  shows "map taskEvents (enqueueLog vs')
         = map taskEvents (enqueueLog vs)
           @ (let batch = fst (filterEvents (chunkStartTs checkpoint) (chunkEndTs checkpoint)
                            (toIngestionEvents (ctxDateParse ctx) (events page)))
              in if batch = [] then [] else [batch])"
  using assms
  by (auto simp: processPage_def Let_def case_prod_beta startFetch_def
      split: if_splits sum.splits)

lemma processPage_crossed:
  assumes "processPage ctx checkpoint vs page = Inr vs'"
    and "snd (filterEvents (chunkStartTs checkpoint) (chunkEndTs checkpoint)
               (toIngestionEvents (ctxDateParse ctx) (events page)))"
  shows "doneVar vs' \<and> fetchPromise vs' = None \<and> fetchLog vs' = fetchLog vs"
  using assms
  by (auto simp: processPage_def Let_def case_prod_beta startFetch_def
      split: if_splits sum.splits)

lemma processPage_lastTs:
  assumes "processPage ctx checkpoint vs page = Inr vs'"
  shows "lastTsVar vs'
         = (if toIngestionEvents (ctxDateParse ctx) (events page) \<noteq> []
            then mathMin (map timestampMs (toIngestionEvents (ctxDateParse ctx) (events page)))
            else lastTsVar vs)"
  using assms
  by (auto simp: processPage_def Let_def case_prod_beta startFetch_def
      split: if_splits sum.splits)

lemma runLoop_done: "doneVar vs \<Longrightarrow> runLoop ctx checkpoint fuel vs = Some (Inr vs)"
  by (subst runLoop.simps) simp

lemma toIngestionEvent_rawEventAt:
  "i \<noteq> [] \<Longrightarrow> 1000000000000 \<le> t \<Longrightarrow>
   toIngestionEvent dp (rawEventAt i t) = Some \<lparr>eventId = i, timestampMs = t, payload = ''{}''\<rparr>"
  by (simp add: toIngestionEvent_def rawEventAt_def normalizeTimestampMs_def)

lemma unsorted_events:
  "toIngestionEvents (ctxDateParse exampleCtx) (events unsortedPage)
   = [\<lparr>eventId = ''below-range'', timestampMs = 1767000000000, payload = ''{}''\<rparr>,
      \<lparr>eventId = ''in-range'', timestampMs = 1768500000000, payload = ''{}''\<rparr>]"
  by (simp add: unsortedPage_def toIngestionEvent_rawEventAt)

lemma crossing_events:
  "toIngestionEvents (ctxDateParse exampleCtx) (events crossingPage)
   = [\<lparr>eventId = ''in-range'', timestampMs = 1768500000000, payload = ''{}''\<rparr>,
      \<lparr>eventId = ''below-range'', timestampMs = 1767000000000, payload = ''{}''\<rparr>]"
  by (simp add: crossingPage_def toIngestionEvent_rawEventAt)

lemma unsorted_step:
  "workerStep exampleCtx exampleCheckpoint (awaitingVars (Inr unsortedPage) None)
   = Inr \<lparr>cursorVar = None, lastTsVar = Some 1767000000000, fetchedCountVar = 2,
          insertedCountVar = 0, doneVar = True, fetchPromise = None,
          fetchLog = [''cursor-1''], enqueueLog = [], stopCalls = 1\<rparr>"
  by (simp add: workerStep_def processPage_def unsorted_events awaitingVars_def Let_def
      exampleCheckpoint_def)
     (simp add: unsortedPage_def exampleCtx_def toIngestionEvent_rawEventAt)

lemma crossing_step:
  "workerStep exampleCtx exampleCheckpoint (awaitingVars (Inr crossingPage) None)
   = Inr \<lparr>cursorVar = Some ''cursor-2'', lastTsVar = Some 1767000000000, fetchedCountVar = 2,
          insertedCountVar = 1, doneVar = True, fetchPromise = None,
          fetchLog = [''cursor-1''], enqueueLog = [crossingTask], stopCalls = 1\<rparr>"
  by (simp add: workerStep_def processPage_def crossing_events awaitingVars_def Let_def
      exampleCheckpoint_def)
     (simp add: crossingPage_def exampleCtx_def crossingTask_def toIngestionEvent_rawEventAt)

lemma workerStep_page:
  "fetchPromise vs = Some (Inr page) \<Longrightarrow>
   workerStep ctx checkpoint vs = processPage ctx checkpoint vs page"
  by (simp add: workerStep_def)


text \<open>
  Claim C4, as stated: for every fetched page, every valid event of the page with
  \<open>chunkStartTs \<le> ts < chunkEndTs\<close> is in the enqueued batch. It fails on a page that
  is not in descending order: the first valid event lies below \<open>chunkStartTs\<close>, the loop
  over the events breaks there, and the in-range event after it is not enqueued (nothing
  is).
\<close>

theorem workerStep_unsorted_page_counterexample:
  "workerStep exampleCtx exampleCheckpoint (awaitingVars (Inr unsortedPage) None)
     = Inr \<lparr>cursorVar = None, lastTsVar = Some 1767000000000, fetchedCountVar = 2,
            insertedCountVar = 0, doneVar = True, fetchPromise = None,
            fetchLog = [''cursor-1''], enqueueLog = [], stopCalls = 1\<rparr>
   \<and> toIngestionEvents (ctxDateParse exampleCtx) (events unsortedPage)
     = [\<lparr>eventId = ''below-range'', timestampMs = 1767000000000, payload = ''{}''\<rparr>,
        \<lparr>eventId = ''in-range'', timestampMs = 1768500000000, payload = ''{}''\<rparr>]
   \<and> chunkStartTs exampleCheckpoint \<le> 1768500000000
   \<and> 1768500000000 < chunkEndTs exampleCheckpoint"
proof (intro conjI)
  show "workerStep exampleCtx exampleCheckpoint (awaitingVars (Inr unsortedPage) None)
     = Inr \<lparr>cursorVar = None, lastTsVar = Some 1767000000000, fetchedCountVar = 2,
            insertedCountVar = 0, doneVar = True, fetchPromise = None,
            fetchLog = [''cursor-1''], enqueueLog = [], stopCalls = 1\<rparr>"
    by (rule unsorted_step)
  show "toIngestionEvents (ctxDateParse exampleCtx) (events unsortedPage)
     = [\<lparr>eventId = ''below-range'', timestampMs = 1767000000000, payload = ''{}''\<rparr>,
        \<lparr>eventId = ''in-range'', timestampMs = 1768500000000, payload = ''{}''\<rparr>]"
    by (rule unsorted_events)
  show "chunkStartTs exampleCheckpoint \<le> 1768500000000"
    by (simp add: exampleCheckpoint_def)
  show "1768500000000 < chunkEndTs exampleCheckpoint"
    by (simp add: exampleCheckpoint_def)
qed

text \<open>
  Claim C4, amended: for every fetched page, the worker enqueues exactly the valid
  events with \<open>chunkStartTs \<le> ts < chunkEndTs\<close> that precede the first valid event with
  \<open>ts < chunkStartTs\<close> (nothing is enqueued when there is none); when the valid events
  of the page are in descending timestamp order, these are all in-range events of the
  page. Every event with \<open>ts < chunkStartTs\<close> or \<open>ts \<ge> chunkEndTs\<close> is excluded, and
  seeing any event with \<open>ts < chunkStartTs\<close> makes the worker finish after this batch:
  \<open>done\<close> is set, no further fetch is issued and the loop returns.
\<close>

theorem workerStep_enqueues_in_range:
  assumes "fetchPromise vs = Some (Inr page)"
    and "workerStep ctx checkpoint vs = Inr vs'"
  shows "(let allEvents = toIngestionEvents (ctxDateParse ctx) (events page);
              lo = chunkStartTs checkpoint;
              hi = chunkEndTs checkpoint;
              batch = filter (\<lambda>e. timestampMs e < hi)
                        (takeWhile (\<lambda>e. lo \<le> timestampMs e) allEvents)
          in map taskEvents (enqueueLog vs')
               = map taskEvents (enqueueLog vs) @ (if batch = [] then [] else [batch])
           \<and> (\<forall>e\<in>set batch. lo \<le> timestampMs e \<and> timestampMs e < hi)
           \<and> (sorted_wrt (\<lambda>x y. timestampMs y \<le> timestampMs x) allEvents
                \<longrightarrow> batch = filter (\<lambda>e. lo \<le> timestampMs e \<and> timestampMs e < hi) allEvents)
           \<and> ((\<exists>e\<in>set allEvents. timestampMs e < lo)
                \<longrightarrow> doneVar vs' \<and> fetchPromise vs' = None \<and> fetchLog vs' = fetchLog vs
                    \<and> (\<forall>fuel. runLoop ctx checkpoint fuel vs' = Some (Inr vs'))))"
proof -
  let ?all = "toIngestionEvents (ctxDateParse ctx) (events page)"
  let ?lo = "chunkStartTs checkpoint"
  let ?hi = "chunkEndTs checkpoint"
  let ?batch = "filter (\<lambda>e. timestampMs e < ?hi) (takeWhile (\<lambda>e. ?lo \<le> timestampMs e) ?all)"
  from assms have run: "processPage ctx checkpoint vs page = Inr vs'"
    by (simp add: workerStep_page)
  have 1: "map taskEvents (enqueueLog vs')
           = map taskEvents (enqueueLog vs) @ (if ?batch = [] then [] else [?batch])"
    using processPage_enqueueLog [OF run] by (simp add: filterEvents_fst Let_def)
  have 2: "\<forall>e\<in>set ?batch. ?lo \<le> timestampMs e \<and> timestampMs e < ?hi"
  proof
    fix e assume "e \<in> set ?batch"
    then have "e \<in> set (takeWhile (\<lambda>e. ?lo \<le> timestampMs e) ?all)" and "timestampMs e < ?hi"
      by simp_all
    then show "?lo \<le> timestampMs e \<and> timestampMs e < ?hi"
      using set_takeWhileD by fastforce
  qed
  have 3: "sorted_wrt (\<lambda>x y. timestampMs y \<le> timestampMs x) ?all
           \<longrightarrow> ?batch = filter (\<lambda>e. ?lo \<le> timestampMs e \<and> timestampMs e < ?hi) ?all"
    using takeWhile_descending by blast
  have 4: "(\<exists>e\<in>set ?all. timestampMs e < ?lo)
           \<longrightarrow> doneVar vs' \<and> fetchPromise vs' = None \<and> fetchLog vs' = fetchLog vs
               \<and> (\<forall>fuel. runLoop ctx checkpoint fuel vs' = Some (Inr vs'))"
  proof
    assume "\<exists>e\<in>set ?all. timestampMs e < ?lo"
    then have "snd (filterEvents ?lo ?hi ?all)" by (simp only: filterEvents_snd)
    from processPage_crossed [OF run this]
    show "doneVar vs' \<and> fetchPromise vs' = None \<and> fetchLog vs' = fetchLog vs
          \<and> (\<forall>fuel. runLoop ctx checkpoint fuel vs' = Some (Inr vs'))"
      by (simp add: runLoop_done)
  qed
  from 1 2 3 4 show ?thesis unfolding Let_def by blast
qed

theorem workerStep_enqueues_in_range_witness:
  "fetchPromise (awaitingVars (Inr crossingPage) None) = Some (Inr crossingPage)
   \<and> workerStep exampleCtx exampleCheckpoint (awaitingVars (Inr crossingPage) None)
       = Inr \<lparr>cursorVar = Some ''cursor-2'', lastTsVar = Some 1767000000000,
              fetchedCountVar = 2, insertedCountVar = 1, doneVar = True, fetchPromise = None,
              fetchLog = [''cursor-1''], enqueueLog = [crossingTask], stopCalls = 1\<rparr>
   \<and> taskEvents crossingTask
       = filter (\<lambda>e. chunkStartTs exampleCheckpoint \<le> timestampMs e
                      \<and> timestampMs e < chunkEndTs exampleCheckpoint)
           (toIngestionEvents (ctxDateParse exampleCtx) (events crossingPage))
   \<and> runLoop exampleCtx exampleCheckpoint 0
        \<lparr>cursorVar = Some ''cursor-2'', lastTsVar = Some 1767000000000,
         fetchedCountVar = 2, insertedCountVar = 1, doneVar = True, fetchPromise = None,
         fetchLog = [''cursor-1''], enqueueLog = [crossingTask], stopCalls = 1\<rparr>
       = Some (Inr \<lparr>cursorVar = Some ''cursor-2'', lastTsVar = Some 1767000000000,
              fetchedCountVar = 2, insertedCountVar = 1, doneVar = True, fetchPromise = None,
              fetchLog = [''cursor-1''], enqueueLog = [crossingTask], stopCalls = 1\<rparr>)"
proof -
  have h: "fetchPromise (awaitingVars (Inr crossingPage) None) = Some (Inr crossingPage)"
    by (simp add: awaitingVars_def)
  have below: "\<exists>e\<in>set (toIngestionEvents (ctxDateParse exampleCtx) (events crossingPage)).
                 timestampMs e < chunkStartTs exampleCheckpoint"
    by (simp add: crossing_events exampleCheckpoint_def)
  have batch: "filter (\<lambda>e. chunkStartTs exampleCheckpoint \<le> timestampMs e
                      \<and> timestampMs e < chunkEndTs exampleCheckpoint)
           (toIngestionEvents (ctxDateParse exampleCtx) (events crossingPage))
          = taskEvents crossingTask"
    by (simp add: crossing_events exampleCheckpoint_def crossingTask_def)
  from workerStep_enqueues_in_range [OF h crossing_step] below
  have loop: "runLoop exampleCtx exampleCheckpoint 0
        \<lparr>cursorVar = Some ''cursor-2'', lastTsVar = Some 1767000000000,
         fetchedCountVar = 2, insertedCountVar = 1, doneVar = True, fetchPromise = None,
         fetchLog = [''cursor-1''], enqueueLog = [crossingTask], stopCalls = 1\<rparr>
       = Some (Inr \<lparr>cursorVar = Some ''cursor-2'', lastTsVar = Some 1767000000000,
              fetchedCountVar = 2, insertedCountVar = 1, doneVar = True, fetchPromise = None,
              fetchLog = [''cursor-1''], enqueueLog = [crossingTask], stopCalls = 1\<rparr>)"
    unfolding Let_def by blast
  from h crossing_step batch [symmetric] loop show ?thesis by (intro conjI)
qed


lemma workerStep_error:
  "fetchPromise vs = Some (Inl err) \<Longrightarrow>
   workerStep ctx checkpoint vs
   = (case (err, lastTsVar vs) of
        (HttpError code, Some ts) \<Rightarrow>
          if code = 400
          then Inr (startFetch ctx (forgeCursor ts) (vs\<lparr>cursorVar := Some (forgeCursor ts)\<rparr>))
          else Inl err
      | _ \<Rightarrow> Inl err)"
  by (simp add: workerStep_def)

lemma workerStep_recover:
  assumes "fetchPromise vs = Some (Inl (HttpError 400))" and "lastTsVar vs = Some ts"
  shows "workerStep ctx checkpoint vs
         = Inr (vs\<lparr>cursorVar := Some (forgeCursor ts),
                   fetchPromise := Some (fetchPage ctx (length (fetchLog vs)) (batchSize ctx)
                                          (forgeCursor ts)),
                   fetchLog := fetchLog vs @ [forgeCursor ts]\<rparr>)"
  using assms by (simp add: workerStep_error startFetch_def)

lemma workerStep_rethrow:
  assumes "fetchPromise vs = Some (Inl err)"
    and "\<not> (err = HttpError 400 \<and> lastTsVar vs \<noteq> None)"
  shows "workerStep ctx checkpoint vs = Inl err"
  using assms by (auto simp: workerStep_error split: error.splits option.splits)

lemma runLoop_step:
  assumes "\<not> doneVar vs" and "\<not> shouldStop ctx (stopCalls vs)"
  shows "runLoop ctx checkpoint (Suc fuel) vs
         = (case workerStep ctx checkpoint (vs\<lparr>stopCalls := stopCalls vs + 1\<rparr>) of
              Inl err \<Rightarrow> Some (Inl err)
            | Inr vs2 \<Rightarrow> runLoop ctx checkpoint fuel vs2)"
  using assms by (subst runLoop.simps) (simp add: Let_def)

lemma workerInit_fields:
  "\<not> doneVar (workerInit ctx checkpoint)" "stopCalls (workerInit ctx checkpoint) = 0"
  "lastTsVar (workerInit ctx checkpoint) = lastTs checkpoint"
  by (simp_all add: workerInit_def startFetch_def Let_def)


text \<open>
  Claim C8: when the awaited fetch has failed with \<open>HttpError\<close> 400 and \<open>lastTs\<close> is
  known, the worker forges a cursor that decodes to \<open>lastTs\<close>, fetches again with it and
  goes on, without an error; every other error of the fetch, and a 400 while \<open>lastTs\<close>
  is unknown, is the result of the step, of the loop and of \<open>runWorker\<close>.
\<close>

theorem workerStep_cursor_expiry:
  assumes "fetchPromise vs = Some (Inl err)"
  shows "(err = HttpError 400 \<and> lastTsVar vs = Some ts \<longrightarrow>
            workerStep ctx checkpoint vs
              = Inr (vs\<lparr>cursorVar := Some (forgeCursor ts),
                        fetchPromise := Some (fetchPage ctx (length (fetchLog vs)) (batchSize ctx)
                                               (forgeCursor ts)),
                        fetchLog := fetchLog vs @ [forgeCursor ts]\<rparr>)
            \<and> decodeCursorTimestamp (forgeCursor ts) = Some ts)
       \<and> (\<not> (err = HttpError 400 \<and> lastTsVar vs \<noteq> None) \<longrightarrow>
            workerStep ctx checkpoint vs = Inl err)
       \<and> (\<not> (err = HttpError 400 \<and> lastTsVar vs \<noteq> None)
            \<and> \<not> doneVar vs \<and> \<not> shouldStop ctx (stopCalls vs) \<longrightarrow>
            (\<forall>fuel. runLoop ctx checkpoint (Suc fuel) vs = Some (Inl err)))
       \<and> (\<not> (err = HttpError 400 \<and> lastTsVar vs \<noteq> None)
            \<and> vs = workerInit ctx checkpoint \<and> status checkpoint \<noteq> COMPLETED
            \<and> \<not> shouldStop ctx 0 \<longrightarrow>
            (\<forall>fuel. runWorker ctx checkpoint (Suc fuel) = Some (Inl err)))"
proof (intro conjI impI allI)
  assume a: "err = HttpError 400 \<and> lastTsVar vs = Some ts"
  with assms show "workerStep ctx checkpoint vs
              = Inr (vs\<lparr>cursorVar := Some (forgeCursor ts),
                        fetchPromise := Some (fetchPage ctx (length (fetchLog vs)) (batchSize ctx)
                                               (forgeCursor ts)),
                        fetchLog := fetchLog vs @ [forgeCursor ts]\<rparr>)"
    by (simp add: workerStep_recover)
  show "decodeCursorTimestamp (forgeCursor ts) = Some ts" by (rule decode_forge)
next
  assume "\<not> (err = HttpError 400 \<and> lastTsVar vs \<noteq> None)"
  with assms show "workerStep ctx checkpoint vs = Inl err" by (rule workerStep_rethrow)
next
  fix fuel
  assume a: "\<not> (err = HttpError 400 \<and> lastTsVar vs \<noteq> None)
             \<and> \<not> doneVar vs \<and> \<not> shouldStop ctx (stopCalls vs)"
  let ?vs1 = "vs\<lparr>stopCalls := stopCalls vs + 1\<rparr>"
  from assms a have "workerStep ctx checkpoint ?vs1 = Inl err"
    by (intro workerStep_rethrow) simp_all
  with a show "runLoop ctx checkpoint (Suc fuel) vs = Some (Inl err)"
    by (simp add: runLoop_step)
next
  fix fuel
  assume a: "\<not> (err = HttpError 400 \<and> lastTsVar vs \<noteq> None)
             \<and> vs = workerInit ctx checkpoint \<and> status checkpoint \<noteq> COMPLETED
             \<and> \<not> shouldStop ctx 0"
  let ?vs1 = "vs\<lparr>stopCalls := stopCalls vs + 1\<rparr>"
  from a have n: "\<not> (err = HttpError 400 \<and> lastTsVar ?vs1 \<noteq> None)" by auto
  from assms have "fetchPromise ?vs1 = Some (Inl err)" by simp
  from this n have "workerStep ctx checkpoint ?vs1 = Inl err" by (rule workerStep_rethrow)
  moreover from a have "vs = workerInit ctx checkpoint" and "\<not> shouldStop ctx 0" by simp_all
  ultimately have "runLoop ctx checkpoint (Suc fuel) (workerInit ctx checkpoint) = Some (Inl err)"
    by (simp add: runLoop_step workerInit_fields)
  with a show "runWorker ctx checkpoint (Suc fuel) = Some (Inl err)"
    by (simp add: runWorker_def)
qed

theorem workerStep_cursor_expiry_witness:
  "workerStep exampleCtx exampleCheckpoint
        (awaitingVars (Inl (HttpError 400)) (Some 1768400000000))
     = Inr \<lparr>cursorVar = Some (forgeCursor 1768400000000), lastTsVar = Some 1768400000000,
            fetchedCountVar = 0, insertedCountVar = 0, doneVar = False,
            fetchPromise = Some (Inr emptyPage),
            fetchLog = [''cursor-1'', forgeCursor 1768400000000], enqueueLog = [],
            stopCalls = 1\<rparr>
   \<and> decodeCursorTimestamp (forgeCursor 1768400000000) = Some 1768400000000
   \<and> workerStep exampleCtx exampleCheckpoint
        (awaitingVars (Inl (HttpError 500)) (Some 1768400000000)) = Inl (HttpError 500)
   \<and> workerStep exampleCtx exampleCheckpoint (awaitingVars (Inl (HttpError 400)) None)
       = Inl (HttpError 400)
   \<and> runLoop exampleCtx exampleCheckpoint 1 (awaitingVars (Inl (HttpError 400)) None)
       = Some (Inl (HttpError 400))"
proof -
  have p: "\<And>e k. fetchPromise (awaitingVars (Inl e) k) = Some (Inl e)"
    by (simp add: awaitingVars_def)
  have live: "\<not> doneVar (awaitingVars (Inl (HttpError 400)) None)
              \<and> \<not> shouldStop exampleCtx (stopCalls (awaitingVars (Inl (HttpError 400)) None))"
    by (simp add: awaitingVars_def exampleCtx_def)
  from workerStep_cursor_expiry
         [OF p, of "HttpError 400" "Some 1768400000000" 1768400000000 exampleCtx exampleCheckpoint]
  have 1: "workerStep exampleCtx exampleCheckpoint
        (awaitingVars (Inl (HttpError 400)) (Some 1768400000000))
     = Inr \<lparr>cursorVar = Some (forgeCursor 1768400000000), lastTsVar = Some 1768400000000,
            fetchedCountVar = 0, insertedCountVar = 0, doneVar = False,
            fetchPromise = Some (Inr emptyPage),
            fetchLog = [''cursor-1'', forgeCursor 1768400000000], enqueueLog = [],
            stopCalls = 1\<rparr>
     \<and> decodeCursorTimestamp (forgeCursor 1768400000000) = Some 1768400000000"
    by (simp add: awaitingVars_def exampleCtx_def)
  from workerStep_cursor_expiry
         [OF p, of "HttpError 500" "Some 1768400000000" 0 exampleCtx exampleCheckpoint]
  have 2: "workerStep exampleCtx exampleCheckpoint
        (awaitingVars (Inl (HttpError 500)) (Some 1768400000000)) = Inl (HttpError 500)"
    by simp
  from workerStep_cursor_expiry
         [OF p, of "HttpError 400" None 0 exampleCtx exampleCheckpoint] live
  have 3: "workerStep exampleCtx exampleCheckpoint (awaitingVars (Inl (HttpError 400)) None)
       = Inl (HttpError 400)
     \<and> runLoop exampleCtx exampleCheckpoint 1 (awaitingVars (Inl (HttpError 400)) None)
       = Some (Inl (HttpError 400))"
    by (simp add: awaitingVars_def)
  from 1 2 3 show ?thesis by blast
qed

lemma crossing_write:
  "worker_checkpoints
     (committed (snd (executeWrite noFaults \<lparr>committed = exampleDb, pending = None\<rparr> crossingTask)))
     0 = Some resumedRow"
proof -
  have cur: "currentDb \<lparr>committed = exampleDb, pending = None\<rparr> = exampleDb"
    by (simp add: currentDb_def)
  have "executeWrite noFaults \<lparr>committed = exampleDb, pending = None\<rparr> crossingTask
        = (Inr (fst (sqlInsertEvents (taskEvents crossingTask) exampleDb)),
           \<lparr>committed = sqlUpdateCheckpoint (taskCheckpoint crossingTask)
                           (snd (sqlInsertEvents (taskEvents crossingTask) exampleDb)),
            pending = None\<rparr>)"
    using executeWrite_success
            [where f = noFaults and task = crossingTask
               and pool = "\<lparr>committed = exampleDb, pending = None\<rparr>"]
    unfolding cur by (simp add: noFaults_def)
  moreover have "worker_checkpoints exampleDb (cpWorkerId (taskCheckpoint crossingTask))
                 = Some exampleRow"
    by (simp add: exampleDb_def crossingTask_def)
  ultimately show ?thesis
    using executeWrite_committed_row
            [of exampleDb "taskCheckpoint crossingTask" exampleRow "taskEvents crossingTask"]
    by (simp add: crossingTask_def resumedRow_def)
qed

lemma resumed_run:
  "runLoop expiredCtx (checkpointOfRow 0 resumedRow) (Suc (Suc 0))
     (workerInit expiredCtx (checkpointOfRow 0 resumedRow))
   = Some (Inr \<lparr>cursorVar = None, lastTsVar = Some 1767000000000, fetchedCountVar = 2,
                 insertedCountVar = 0, doneVar = True, fetchPromise = None,
                 fetchLog = [''cursor-2'', forgeCursor 1767000000000], enqueueLog = [],
                 stopCalls = 2\<rparr>)"
  by (simp add: runLoop.simps workerStep_def processPage_def workerInit_def startFetch_def
      checkpointOfRow_def resumedRow_def exampleRow_def expiredCtx_def exampleCtx_def
      emptyPage_def Let_def)


text \<open>
  Claim C10: after a page with at least one valid event, \<open>lastTs\<close> is the minimum
  timestamp over all valid events of the page, in the chunk or not. Consequently a
  recovery cursor can point below the worker's chunk: for \<open>crossingPage\<close> the worker
  enqueues a checkpoint with \<open>lastTs = 1767000000000\<close>, below its
  \<open>chunkStartTs = 1768000000000\<close>; the write queue stores it in the worker's row; a
  worker resumed from this row whose first fetch fails with status 400 fetches again at
  a forged cursor that decodes to \<open>1767000000000\<close>.
\<close>

theorem workerStep_lastTs_min:
  "(fetchPromise vs = Some (Inr page) \<and> workerStep ctx checkpoint vs = Inr vs'
      \<and> toIngestionEvents (ctxDateParse ctx) (events page) \<noteq> []
     \<longrightarrow> lastTsVar vs'
         = Some (Min (timestampMs ` set (toIngestionEvents (ctxDateParse ctx) (events page)))))
   \<and> workerStep exampleCtx exampleCheckpoint (awaitingVars (Inr crossingPage) None)
       = Inr \<lparr>cursorVar = Some ''cursor-2'', lastTsVar = Some 1767000000000,
              fetchedCountVar = 2, insertedCountVar = 1, doneVar = True, fetchPromise = None,
              fetchLog = [''cursor-1''], enqueueLog = [crossingTask], stopCalls = 1\<rparr>
   \<and> worker_checkpoints
        (committed (snd (executeWrite noFaults \<lparr>committed = exampleDb, pending = None\<rparr>
                           crossingTask))) 0
       = Some resumedRow
   \<and> runLoop expiredCtx (checkpointOfRow 0 resumedRow) (Suc (Suc 0))
        (workerInit expiredCtx (checkpointOfRow 0 resumedRow))
       = Some (Inr \<lparr>cursorVar = None, lastTsVar = Some 1767000000000, fetchedCountVar = 2,
                     insertedCountVar = 0, doneVar = True, fetchPromise = None,
                     fetchLog = [''cursor-2'', forgeCursor 1767000000000], enqueueLog = [],
                     stopCalls = 2\<rparr>)
   \<and> decodeCursorTimestamp (forgeCursor 1767000000000) = Some 1767000000000
   \<and> 1767000000000 < chunkStartTs (checkpointOfRow 0 resumedRow)"
proof (intro conjI impI)
  assume a: "fetchPromise vs = Some (Inr page) \<and> workerStep ctx checkpoint vs = Inr vs'
      \<and> toIngestionEvents (ctxDateParse ctx) (events page) \<noteq> []"
  let ?all = "toIngestionEvents (ctxDateParse ctx) (events page)"
  from a have "fetchPromise vs = Some (Inr page)" and "workerStep ctx checkpoint vs = Inr vs'"
    by simp_all
  then have run: "processPage ctx checkpoint vs page = Inr vs'"
    by (simp add: workerStep_page)
  from a have ne: "map timestampMs ?all \<noteq> []" by simp
  from processPage_lastTs [OF run] a have "lastTsVar vs' = mathMin (map timestampMs ?all)"
    by simp
  also have "\<dots> = Some (Min (set (map timestampMs ?all)))" using ne by (rule mathMin_Min)
  finally show "lastTsVar vs' = Some (Min (timestampMs ` set ?all))" by simp
next
  show "workerStep exampleCtx exampleCheckpoint (awaitingVars (Inr crossingPage) None)
       = Inr \<lparr>cursorVar = Some ''cursor-2'', lastTsVar = Some 1767000000000,
              fetchedCountVar = 2, insertedCountVar = 1, doneVar = True, fetchPromise = None,
              fetchLog = [''cursor-1''], enqueueLog = [crossingTask], stopCalls = 1\<rparr>"
    by (rule crossing_step)
next
  show "worker_checkpoints
        (committed (snd (executeWrite noFaults \<lparr>committed = exampleDb, pending = None\<rparr>
                           crossingTask))) 0
       = Some resumedRow"
    by (rule crossing_write)
next
  show "runLoop expiredCtx (checkpointOfRow 0 resumedRow) (Suc (Suc 0))
        (workerInit expiredCtx (checkpointOfRow 0 resumedRow))
       = Some (Inr \<lparr>cursorVar = None, lastTsVar = Some 1767000000000, fetchedCountVar = 2,
                     insertedCountVar = 0, doneVar = True, fetchPromise = None,
                     fetchLog = [''cursor-2'', forgeCursor 1767000000000], enqueueLog = [],
                     stopCalls = 2\<rparr>)"
    by (rule resumed_run)
next
  show "decodeCursorTimestamp (forgeCursor 1767000000000) = Some 1767000000000"
    by (rule decode_forge)
next
  show "1767000000000 < chunkStartTs (checkpointOfRow 0 resumedRow)"
    by (simp add: checkpointOfRow_def resumedRow_def exampleRow_def)
qed

theorem workerStep_lastTs_min_witness:
  "fetchPromise (awaitingVars (Inr crossingPage) None) = Some (Inr crossingPage)
   \<and> toIngestionEvents (ctxDateParse exampleCtx) (events crossingPage) \<noteq> []
   \<and> lastTsVar \<lparr>cursorVar = Some ''cursor-2'', lastTsVar = Some 1767000000000,
                 fetchedCountVar = 2, insertedCountVar = 1, doneVar = True, fetchPromise = None,
                 fetchLog = [''cursor-1''], enqueueLog = [crossingTask], stopCalls = 1\<rparr>
       = Some (Min (timestampMs ` set (toIngestionEvents (ctxDateParse exampleCtx)
                                        (events crossingPage))))
   \<and> Min (timestampMs ` set (toIngestionEvents (ctxDateParse exampleCtx) (events crossingPage)))
       = 1767000000000"
proof -
  have h: "fetchPromise (awaitingVars (Inr crossingPage) None) = Some (Inr crossingPage)"
    by (simp add: awaitingVars_def)
  have ne: "toIngestionEvents (ctxDateParse exampleCtx) (events crossingPage) \<noteq> []"
    by (simp add: crossing_events)
  have m: "Min (timestampMs ` set (toIngestionEvents (ctxDateParse exampleCtx)
                                     (events crossingPage))) = 1767000000000"
    by (simp add: crossing_events)
  from workerStep_lastTs_min
         [of "awaitingVars (Inr crossingPage) None" crossingPage exampleCtx exampleCheckpoint
             "\<lparr>cursorVar = Some ''cursor-2'', lastTsVar = Some 1767000000000,
               fetchedCountVar = 2, insertedCountVar = 1, doneVar = True, fetchPromise = None,
               fetchLog = [''cursor-1''], enqueueLog = [crossingTask], stopCalls = 1\<rparr>"]
       h ne crossing_step
  have "lastTsVar \<lparr>cursorVar = Some ''cursor-2'', lastTsVar = Some 1767000000000,
                 fetchedCountVar = 2, insertedCountVar = 1, doneVar = True, fetchPromise = None,
                 fetchLog = [''cursor-1''], enqueueLog = [crossingTask], stopCalls = 1\<rparr>
       = Some (Min (timestampMs ` set (toIngestionEvents (ctxDateParse exampleCtx)
                                        (events crossingPage))))"
    by blast
  with h ne m show ?thesis by blast
qed

end
